theory Spec2Isabelle
  imports Complex_Main "HOL-Library.Option_ord" "HOL-Library.Multiset"
begin


section \<open>Scale schedule (utils.py)\<close>

text \<open>
  Python integers are unbounded, so they are \<open>int\<close> here.
  \<^verbatim>\<open>get_multi_scale_patches(max_patches)\<close> is \<^verbatim>\<open>list(range(1, max_patches + 1))\<close>:
  the list \<open>1, 2, ..., max_patches\<close>, empty when \<open>max_patches < 1\<close>.
\<close>

definition get_multi_scale_patches :: "int \<Rightarrow> int list" where
  "get_multi_scale_patches max_patches = [1..max_patches]"

text \<open>
  The loop of \<^verbatim>\<open>compute_scale_positions\<close>: the running total \<open>cumulative\<close> and the two
  lists that are appended to, one scale per iteration.
\<close>

fun scale_loop :: "int list \<Rightarrow> int \<Rightarrow> int list \<Rightarrow> int list \<Rightarrow> int list \<times> int list" where
  "scale_loop [] cumulative start_positions end_positions = (start_positions, end_positions)"
| "scale_loop (scale # rest) cumulative start_positions end_positions =
     (let num_tokens = scale * scale
      in scale_loop rest (cumulative + num_tokens)
           (start_positions @ [cumulative])
           (end_positions @ [cumulative + num_tokens]))"

definition compute_scale_positions :: "int \<Rightarrow> int list \<times> int list" where
  "compute_scale_positions max_scale = scale_loop (get_multi_scale_patches max_scale) 0 [] []"

text \<open>
  \<^verbatim>\<open>VAR.__init__\<close>, lines 159-160:
  \<^verbatim>\<open>self.total_seq_len = sum(s * s for s in self.scales)\<close>.
\<close>

definition total_seq_len_of :: "int list \<Rightarrow> int" where
  "total_seq_len_of scs = sum_list (map (\<lambda>s. s * s) scs)"

subsection \<open>Construction of the sequence model (var_model.py, \<^verbatim>\<open>VAR.__init__\<close>)\<close>

text \<open>
  \<open>error\<close> lists the exceptions that the modelled calls into torch can raise; a call
  that may raise returns \<open>error + 'a\<close>, and \<open>bind_err\<close> runs the next statement only
  when the previous one has not raised.
\<close>

datatype error = RuntimeError | IndexError | ValueError | AssertionError

definition bind_err :: "error + 'a \<Rightarrow> ('a \<Rightarrow> error + 'b) \<Rightarrow> error + 'b" where
  "bind_err r f = (case r of Inl e \<Rightarrow> Inl e | Inr a \<Rightarrow> f a)"

text \<open>Applying a function that may fail to every element, stopping at the first error.\<close>

fun map_err :: "('a \<Rightarrow> error + 'b) \<Rightarrow> 'a list \<Rightarrow> error + 'b list" where
  "map_err f [] = Inr []"
| "map_err f (x # xs) =
     (case f x of
        Inl e \<Rightarrow> Inl e
      | Inr y \<Rightarrow> (case map_err f xs of Inl e \<Rightarrow> Inl e | Inr ys \<Rightarrow> Inr (y # ys)))"

text \<open>
  \<^verbatim>\<open>VAR.__init__\<close> itself contains no \<^verbatim>\<open>raise\<close> and no \<^verbatim>\<open>assert\<close>; it can fail
  only inside the torch constructors it calls.  These are modelled by the shapes they
  allocate and the checks they make:
  \<^item> torch refuses to create a tensor one of whose dimensions is negative (a
    RuntimeError) and accepts a dimension of zero (\<open>new_tensor\<close>);
  \<^item> \<^verbatim>\<open>nn.Embedding(n, d)\<close> allocates an \<open>[n, d]\<close> table, \<^verbatim>\<open>nn.Linear(n, m)\<close> an
    \<open>[m, n]\<close> weight and an \<open>[m]\<close> bias;
  \<^item> \<^verbatim>\<open>nn.Dropout(p)\<close> raises a ValueError unless \<open>0 \<le> p \<le> 1\<close>;
  \<^item> \<^verbatim>\<open>nn.MultiheadAttention(embed_dim, num_heads)\<close> raises a ValueError unless both
    are positive, asserts that \<open>embed_dim\<close> is divisible by \<open>num_heads\<close>, and allocates
    the input projection and the output projection.
\<close>

definition new_tensor :: "int list \<Rightarrow> error + int list" where
  "new_tensor shape = (if \<exists>d \<in> set shape. d < 0 then Inl RuntimeError else Inr shape)"

definition nn_Embedding :: "int \<Rightarrow> int \<Rightarrow> error + int list" where
  "nn_Embedding num_embeddings embedding_size = new_tensor [num_embeddings, embedding_size]"

definition nn_Linear :: "int \<Rightarrow> int \<Rightarrow> error + int list" where
  \<comment> \<open>returns the shape of the weight\<close>
  "nn_Linear in_features out_features =
     bind_err (new_tensor [out_features, in_features]) (\<lambda>w.
     bind_err (new_tensor [out_features]) (\<lambda>b. Inr w))"

definition nn_Dropout :: "real \<Rightarrow> error + real" where
  "nn_Dropout p = (if p < 0 \<or> 1 < p then Inl ValueError else Inr p)"

definition nn_MultiheadAttention :: "int \<Rightarrow> int \<Rightarrow> error + int \<times> int" where
  \<comment> \<open>returns \<open>num_heads\<close> and \<open>head_dim\<close>\<close>
  "nn_MultiheadAttention embed_dim num_heads =
     (if embed_dim \<le> 0 \<or> num_heads \<le> 0 then Inl ValueError
      else let head_dim = embed_dim div num_heads
           in if head_dim * num_heads \<noteq> embed_dim then Inl AssertionError
              else bind_err (new_tensor [3 * embed_dim, embed_dim]) (\<lambda>in_proj_weight.
                   bind_err (new_tensor [3 * embed_dim]) (\<lambda>in_proj_bias.
                   bind_err (nn_Linear embed_dim embed_dim) (\<lambda>out_proj.
                   Inr (num_heads, head_dim)))))"

text \<open>
  \<^verbatim>\<open>TransformerBlock.__init__\<close>: two \<^verbatim>\<open>AdaptiveLayerNorm\<close> (each a layer norm
  without parameters and a \<^verbatim>\<open>nn.Linear(condition_dim, 2 * d_model)\<close>), the attention,
  and the feed-forward network with its two dropout layers.
\<close>

record block_layout =
  adaLN1_shape :: "int list"
  adaLN2_shape :: "int list"
  attention_heads :: "int \<times> int"
  ffn_in_shape :: "int list"
  ffn_out_shape :: "int list"

definition TransformerBlock_init :: "int \<Rightarrow> int \<Rightarrow> int \<Rightarrow> int \<Rightarrow> real \<Rightarrow> error + block_layout" where
  "TransformerBlock_init d_model n_heads d_ff condition_dim dropout =
     bind_err (nn_Linear condition_dim (2 * d_model)) (\<lambda>ada1.
     bind_err (nn_Linear condition_dim (2 * d_model)) (\<lambda>ada2.
     bind_err (nn_MultiheadAttention d_model n_heads) (\<lambda>attn.
     bind_err (nn_Linear d_model d_ff) (\<lambda>lin1.
     bind_err (nn_Dropout dropout) (\<lambda>drop1.
     bind_err (nn_Linear d_ff d_model) (\<lambda>lin2.
     bind_err (nn_Dropout dropout) (\<lambda>drop2.
       Inr \<lparr> adaLN1_shape = ada1, adaLN2_shape = ada2, attention_heads = attn,
             ffn_in_shape = lin1, ffn_out_shape = lin2 \<rparr>)))))))"

text \<open>
  \<^verbatim>\<open>VAR.__init__\<close>, statement by statement: the attributes, the schedule, the four
  embedding tables, one block per \<^verbatim>\<open>range(n_layers)\<close>, the output projection and the
  dropout layer.  (The initialisation of the weights that follows cannot fail.)
\<close>

record var_layout =
  lay_vocab_size :: int
  lay_d_model :: int
  lay_max_scale :: int
  lay_num_classes :: int
  lay_scales :: "int list"
  lay_total_seq_len :: int
  token_embedding_shape :: "int list"
  class_embedding_shape :: "int list"
  scale_embedding_shape :: "int list"
  pos_embedding_shape :: "int list"
  lay_blocks :: "block_layout list"
  to_logits_shape :: "int list"
  lay_dropout :: real

definition VAR_init ::
  "int \<Rightarrow> int \<Rightarrow> int \<Rightarrow> int \<Rightarrow> int \<Rightarrow> int \<Rightarrow> int \<Rightarrow> real \<Rightarrow> error + var_layout" where
  "VAR_init vocab_size d_model n_layers n_heads d_ff max_scale num_classes dropout =
     (let scs = get_multi_scale_patches max_scale;
          total = total_seq_len_of scs
      in bind_err (nn_Embedding vocab_size d_model) (\<lambda>tok.
         bind_err (nn_Embedding num_classes d_model) (\<lambda>cls.
         bind_err (nn_Embedding max_scale d_model) (\<lambda>scl.
         bind_err (new_tensor [1, total, d_model]) (\<lambda>pos.
         bind_err (map_err (\<lambda>_. TransformerBlock_init d_model n_heads d_ff d_model dropout)
                     [0..<nat n_layers]) (\<lambda>blocks.
         bind_err (nn_Linear d_model vocab_size) (\<lambda>out.
         bind_err (nn_Dropout dropout) (\<lambda>drop.
           Inr \<lparr> lay_vocab_size = vocab_size, lay_d_model = d_model,
                 lay_max_scale = max_scale, lay_num_classes = num_classes,
                 lay_scales = scs, lay_total_seq_len = total,
                 token_embedding_shape = tok, class_embedding_shape = cls,
                 scale_embedding_shape = scl, pos_embedding_shape = pos,
                 lay_blocks = blocks, to_logits_shape = out,
                 lay_dropout = drop \<rparr>))))))))"

text \<open>The lists the loop appends, written without the accumulators.\<close>

fun starts_from :: "int \<Rightarrow> int list \<Rightarrow> int list" where
  "starts_from c [] = []"
| "starts_from c (s # ss) = c # starts_from (c + s * s) ss"

fun ends_from :: "int \<Rightarrow> int list \<Rightarrow> int list" where
  "ends_from c [] = []"
| "ends_from c (s # ss) = (c + s * s) # ends_from (c + s * s) ss"

section \<open>Floating-point rounding\<close>

text \<open>
  The tensors of the program hold 32-bit floats, and every arithmetic operation on them
  rounds its result to that format.  Where a property depends on the rounding, the
  rounding is a parameter \<open>rnd\<close> of the model: the identity for exact arithmetic,
  \<open>float32_round\<close> for the program as it runs.  \<open>float32_round\<close> rounds to the nearest
  number with 24 significant bits, ties to the even significand, with the exponent not
  below that of the smallest normal number; a result of magnitude \<open>2\<^sup>1\<^sup>2\<^sup>8\<close> or more
  stands for an overflow to infinity.
\<close>

definition round_half_even :: "real \<Rightarrow> int" where
  "round_half_even r =
     (let f = \<lfloor>r\<rfloor>
      in if r - of_int f < 1 / 2 then f
         else if r - of_int f > 1 / 2 then f + 1
         else if even f then f else f + 1)"

definition float32_round :: "real \<Rightarrow> real" where
  "float32_round x =
     (if x = 0 then 0
      else let e = max \<lfloor>log 2 \<bar>x\<bar>\<rfloor> (- 126);
               ulp = 2 powr (of_int (e - 23))
           in ulp * of_int (round_half_even (x / ulp)))"

text \<open>
  A sum along a dimension, accumulated from left to right with a rounding after each
  addition (torch leaves the order of a reduction open).
\<close>

definition float_sum :: "(real \<Rightarrow> real) \<Rightarrow> real list \<Rightarrow> real" where
  "float_sum rnd xs = foldl (\<lambda>acc a. rnd (acc + a)) 0 xs"

section \<open>Vector quantizer (vqvae.py)\<close>

text \<open>
  Tensors of floats are lists of \<open>real\<close>.  \<open>flat_x\<close> is the \<open>[B*H*W, C]\<close> matrix of
  feature vectors of \<^verbatim>\<open>VectorQuantizer.forward\<close>, the codebook
  \<^verbatim>\<open>self.embeddings.weight\<close> is the \<open>[num_embeddings, embedding_dim]\<close> matrix of code
  vectors; both are lists of rows.
\<close>

type_synonym vec = "real list"
type_synonym matrix = "real list list"

definition dot :: "vec \<Rightarrow> vec \<Rightarrow> real" where
  \<comment> \<open>the product of a row with a vector, in exact arithmetic\<close>
  "dot u v = sum_list (map2 (*) u v)"

definition sum_sq :: "(real \<Rightarrow> real) \<Rightarrow> vec \<Rightarrow> real" where
  \<comment> \<open>\<^verbatim>\<open>torch.sum(v**2)\<close> along the last dimension\<close>
  "sum_sq rnd v = float_sum rnd (map (\<lambda>a. rnd (a * a)) v)"

definition matmul_entry :: "(real \<Rightarrow> real) \<Rightarrow> vec \<Rightarrow> vec \<Rightarrow> real" where
  \<comment> \<open>one entry of \<^verbatim>\<open>torch.matmul(flat_x, weight.t())\<close>\<close>
  "matmul_entry rnd u v = float_sum rnd (map2 (\<lambda>a b. rnd (a * b)) u v)"

text \<open>
  Lines 50-54: \<^verbatim>\<open>sum(flat_x**2, dim=1, keepdim=True) + sum(weight**2, dim=1)
  - 2 * matmul(flat_x, weight.t())\<close>; one row of the result per feature vector, one
  entry per code vector, every operation rounded by \<open>rnd\<close>.
\<close>

definition distances_row :: "(real \<Rightarrow> real) \<Rightarrow> matrix \<Rightarrow> vec \<Rightarrow> real list" where
  "distances_row rnd weight x =
     map (\<lambda>c. rnd (rnd (sum_sq rnd x + sum_sq rnd c) - rnd (2 * matmul_entry rnd x c))) weight"

definition distances :: "(real \<Rightarrow> real) \<Rightarrow> matrix \<Rightarrow> matrix \<Rightarrow> matrix" where
  "distances rnd weight flat_x = map (distances_row rnd weight) flat_x"

text \<open>
  \<^verbatim>\<open>torch.argmin(distances, dim=1)\<close>: a left-to-right scan that keeps the index of the
  smallest value seen so far and replaces it only by a strictly smaller one, so that of
  several minimal values the first is returned (as torch documents).  Reducing over a
  dimension of size zero is an error.
\<close>

fun argmin_scan :: "real list \<Rightarrow> nat \<Rightarrow> nat \<Rightarrow> real \<Rightarrow> nat" where
  "argmin_scan [] i best best_val = best"
| "argmin_scan (d # ds) i best best_val =
     (if d < best_val then argmin_scan ds (Suc i) i d
      else argmin_scan ds (Suc i) best best_val)"

definition argmin :: "real list \<Rightarrow> error + nat" where
  "argmin ds = (case ds of [] \<Rightarrow> Inl RuntimeError | d # rest \<Rightarrow> Inr (argmin_scan rest 1 0 d))"

definition encoding_index :: "(real \<Rightarrow> real) \<Rightarrow> matrix \<Rightarrow> vec \<Rightarrow> error + nat" where
  \<comment> \<open>line 57, for one feature vector\<close>
  "encoding_index rnd weight x = argmin (distances_row rnd weight x)"

text \<open>Squared Euclidean distance in the words of the specification.\<close>

definition sq_euclid :: "vec \<Rightarrow> vec \<Rightarrow> real" where
  "sq_euclid x c = sum_list (map2 (\<lambda>a b. (a - b) * (a - b)) x c)"

subsection \<open>The quantizer loss and stop-gradient\<close>

text \<open>
  \<^verbatim>\<open>detach()\<close> does not change a value; it changes where gradients flow.  To make
  that visible a tensor of the loss computation carries, besides its values, two flags:
  whether it is (an identity function of) the encoder output \<open>x\<close>, and whether it is
  (an identity function of) the looked-up code vectors \<open>quantized\<close>.  A scalar carries
  its value, its gradient with respect to \<open>x\<close> and its gradient with respect to
  \<open>quantized\<close>.
\<close>

record tracked =
  val :: vec
  to_x :: bool
  to_q :: bool

record scalar =
  loss_value :: real
  grad_x :: vec
  grad_q :: vec

definition encoder_output :: "vec \<Rightarrow> tracked" where
  "encoder_output v = \<lparr> val = v, to_x = True, to_q = False \<rparr>"

definition codebook_lookup :: "vec \<Rightarrow> tracked" where
  "codebook_lookup v = \<lparr> val = v, to_x = False, to_q = True \<rparr>"

definition detach :: "tracked \<Rightarrow> tracked" where
  "detach t = \<lparr> val = val t, to_x = False, to_q = False \<rparr>"

text \<open>
  \<^verbatim>\<open>F.mse_loss(a, b)\<close> is the mean of \<open>(a\<^sub>i - b\<^sub>i)\<^sup>2\<close>; its derivative in
  \<open>a\<^sub>i\<close> is \<open>2 (a\<^sub>i - b\<^sub>i) / n\<close> and in \<open>b\<^sub>i\<close> the negative of that.
\<close>

definition grad_part :: "bool \<Rightarrow> bool \<Rightarrow> vec \<Rightarrow> vec" where
  \<comment> \<open>the part of the derivative \<open>d\<close> in the first argument that reaches a leaf\<close>
  "grad_part fa fb d = map (\<lambda>g. (if fa then g else 0) + (if fb then - g else 0)) d"

definition mse_loss :: "tracked \<Rightarrow> tracked \<Rightarrow> scalar" where
  "mse_loss a b =
     (let n = real (length (val a));
          d = map2 (\<lambda>u v. 2 * (u - v) / n) (val a) (val b)
      in \<lparr> loss_value = sum_list (map2 (\<lambda>u v. (u - v) * (u - v)) (val a) (val b)) / n,
            grad_x = grad_part (to_x a) (to_x b) d,
            grad_q = grad_part (to_q a) (to_q b) d \<rparr>)"

definition s_add :: "scalar \<Rightarrow> scalar \<Rightarrow> scalar" where
  "s_add s t = \<lparr> loss_value = loss_value s + loss_value t,
                 grad_x = map2 (+) (grad_x s) (grad_x t),
                 grad_q = map2 (+) (grad_q s) (grad_q t) \<rparr>"

definition s_scale :: "real \<Rightarrow> scalar \<Rightarrow> scalar" where
  "s_scale k s = \<lparr> loss_value = k * loss_value s,
                   grad_x = map ((*) k) (grad_x s),
                   grad_q = map ((*) k) (grad_q s) \<rparr>"

text \<open>
  Lines 63-65, on the flattened values \<open>x\<close> of the input and \<open>quantized\<close> of the
  selected code vectors:
  \<^verbatim>\<open>e_latent_loss = F.mse_loss(quantized.detach(), x)\<close>,
  \<^verbatim>\<open>q_latent_loss = F.mse_loss(quantized, x.detach())\<close>,
  \<^verbatim>\<open>vq_loss = q_latent_loss + self.commitment_cost * e_latent_loss\<close>.
\<close>

definition vq_loss :: "real \<Rightarrow> vec \<Rightarrow> vec \<Rightarrow> scalar" where
  "vq_loss commitment_cost x quantized =
     (let e_latent_loss = mse_loss (detach (codebook_lookup quantized)) (encoder_output x);
          q_latent_loss = mse_loss (codebook_lookup quantized) (detach (encoder_output x))
      in s_add q_latent_loss (s_scale commitment_cost e_latent_loss))"

text \<open>
  The loss in the words of the specification:
  \<open>mse(stopgrad(quantized), input) \<cdot> 1 + mse(quantized, stopgrad(input)) \<cdot> commitment_cost\<close>.
\<close>

definition spec_vq_loss :: "real \<Rightarrow> vec \<Rightarrow> vec \<Rightarrow> scalar" where
  "spec_vq_loss commitment_cost x quantized =
     s_add (s_scale 1 (mse_loss (detach (codebook_lookup quantized)) (encoder_output x)))
           (s_scale commitment_cost
              (mse_loss (codebook_lookup quantized) (detach (encoder_output x))))"

section \<open>Top-k and nucleus filtering (utils.py)\<close>

text \<open>
  A logit is a finite number or negative infinity, the default \<open>filter_value\<close>:
  \<open>real option\<close> with \<open>None\<close> for negative infinity, ordered with \<open>None\<close> below every
  number.  The function is modelled on one row of the \<open>[batch_size, vocab_size]\<close>
  tensor; \<^verbatim>\<open>topk\<close>, \<^verbatim>\<open>sort\<close>, \<^verbatim>\<open>softmax\<close>, \<^verbatim>\<open>cumsum\<close> and \<^verbatim>\<open>scatter\<close> all
  act along the last dimension, each row on its own.
\<close>

type_synonym logit = "real option"

abbreviation NegInf :: logit where
  "NegInf \<equiv> None"

abbreviation Fin :: "real \<Rightarrow> logit" where
  "Fin \<equiv> Some"

text \<open>
  \<^verbatim>\<open>torch.topk(logits, top_k)[0]\<close>: the \<open>top_k\<close> largest values, largest first; an
  error when the row has fewer than \<open>top_k\<close> entries.
\<close>

definition topk :: "logit list \<Rightarrow> nat \<Rightarrow> error + logit list" where
  "topk row k = (if length row < k then Inl RuntimeError else Inr (take k (rev (sort row))))"

text \<open>\<^verbatim>\<open>logits[indices_to_remove] = filter_value\<close>, as the new contents of the row.\<close>

definition masked_assign :: "logit list \<Rightarrow> bool list \<Rightarrow> logit \<Rightarrow> logit list" where
  "masked_assign row remove filter_value = map2 (\<lambda>x r. if r then filter_value else x) row remove"

text \<open>
  \<^verbatim>\<open>torch.sort(logits, descending=True)\<close>: values paired with their original indices,
  largest value first.  Equal values are kept in the order of their indices (torch
  leaves the order of equal values open; nothing proved below depends on it).
\<close>

definition sort_descending :: "logit list \<Rightarrow> (logit \<times> nat) list" where
  "sort_descending row = rev (sort_key fst (rev (zip row [0..<length row])))"

text \<open>
  \<^verbatim>\<open>torch.softmax\<close> over a row: \<open>exp\<close> of negative infinity is 0.  When every entry
  is negative infinity torch yields NaN in every position, and every comparison with
  NaN is false; the model returns \<open>None\<close> for that row.
\<close>

definition exp_logit :: "logit \<Rightarrow> real" where
  "exp_logit x = (case x of None \<Rightarrow> 0 | Some a \<Rightarrow> exp a)"

definition softmax :: "logit list \<Rightarrow> real list option" where
  "softmax row =
     (if \<forall>x \<in> set row. x = NegInf then None
      else Some (map (\<lambda>x. exp_logit x / sum_list (map exp_logit row)) row))"

fun cumsum_from :: "real \<Rightarrow> real list \<Rightarrow> real list" where
  "cumsum_from acc [] = []"
| "cumsum_from acc (p # ps) = (acc + p) # cumsum_from (acc + p) ps"

definition cumsum :: "real list \<Rightarrow> real list" where
  "cumsum ps = cumsum_from 0 ps"

text \<open>
  \<^verbatim>\<open>self.scatter(1, index, src)\<close>: a copy of \<open>self\<close> in which, for every position
  \<open>j\<close>, entry \<open>index[j]\<close> is overwritten with \<open>src[j]\<close>.
\<close>

definition scatter :: "bool list \<Rightarrow> nat list \<Rightarrow> bool list \<Rightarrow> bool list" where
  "scatter self index src = fold (\<lambda>j out. out[index ! j := src ! j]) [0..<length index] self"

text \<open>
  Lines 115-127: the mask of the nucleus filter for one row.  Writing entry 0 of the
  shifted mask fails on a row without entries.
\<close>

definition nucleus_mask :: "logit list \<Rightarrow> real \<Rightarrow> error + bool list" where
  "nucleus_mask row top_p =
     (let pairs = sort_descending row;
          sorted_logits = map fst pairs;
          sorted_indices = map snd pairs;
          above = (case softmax sorted_logits of
                     None \<Rightarrow> map (\<lambda>_. False) sorted_logits
                   | Some probs \<Rightarrow> map (\<lambda>c. c > top_p) (cumsum probs))
      in if row = [] then Inl IndexError
         else let sorted_indices_to_remove = False # butlast above
              in Inr (scatter sorted_indices_to_remove sorted_indices sorted_indices_to_remove))"

text \<open>
  The function writes into its argument: \<^verbatim>\<open>logits[...] = filter_value\<close> changes the
  tensor object the caller passed, and \<^verbatim>\<open>return logits\<close> returns that same object.
  Tensor objects live in a store, addressed by reference; the function takes the store
  and the reference of \<open>logits\<close> and returns the store after the call and the
  reference it returns.
\<close>

type_synonym tensor_ref = nat
type_synonym store = "tensor_ref \<Rightarrow> logit list"

definition top_k_step :: "store \<Rightarrow> tensor_ref \<Rightarrow> int \<Rightarrow> logit \<Rightarrow> error + store" where
  "top_k_step s logits top_k filter_value =
     (if top_k > 0 then
        (case topk (s logits) (nat top_k) of
           Inl e \<Rightarrow> Inl e
         | Inr vals \<Rightarrow>
             (let indices_to_remove = map (\<lambda>x. x < last vals) (s logits)
              in Inr (s(logits := masked_assign (s logits) indices_to_remove filter_value))))
      else Inr s)"

definition top_p_step :: "store \<Rightarrow> tensor_ref \<Rightarrow> real \<Rightarrow> logit \<Rightarrow> error + store" where
  "top_p_step s logits top_p filter_value =
     (if top_p < 1 then
        (case nucleus_mask (s logits) top_p of
           Inl e \<Rightarrow> Inl e
         | Inr indices_to_remove \<Rightarrow>
             Inr (s(logits := masked_assign (s logits) indices_to_remove filter_value)))
      else Inr s)"

definition top_k_top_p_filtering ::
  "store \<Rightarrow> tensor_ref \<Rightarrow> int \<Rightarrow> real \<Rightarrow> logit \<Rightarrow> error + (store \<times> tensor_ref)" where
  "top_k_top_p_filtering s logits top_k top_p filter_value =
     (case top_k_step s logits top_k filter_value of
        Inl e \<Rightarrow> Inl e
      | Inr s1 \<Rightarrow>
          (case top_p_step s1 logits top_p filter_value of
             Inl e \<Rightarrow> Inl e
           | Inr s2 \<Rightarrow> Inr (s2, logits)))"

text \<open>
  The contents of the row after the call, in the words of the docstring and the
  comments: top-k keeps the entries that are not smaller than the \<open>top_k\<close>-th largest
  value; the nucleus filter removes the entry of sorted rank \<open>j \<ge> 1\<close> when the
  cumulative probability of the ranks before it exceeds \<open>top_p\<close>.
\<close>

definition kth_largest :: "logit list \<Rightarrow> nat \<Rightarrow> logit" where
  "kth_largest row k = rev (sort row) ! (k - 1)"

definition row_after_top_k :: "logit list \<Rightarrow> int \<Rightarrow> logit \<Rightarrow> logit list" where
  "row_after_top_k row top_k filter_value =
     (if 0 < top_k
      then map (\<lambda>x. if x < kth_largest row (nat top_k) then filter_value else x) row
      else row)"

definition cumulative_probs :: "logit list \<Rightarrow> real list option" where
  "cumulative_probs row = map_option cumsum (softmax (map fst (sort_descending row)))"

definition nucleus_removes :: "logit list \<Rightarrow> real \<Rightarrow> nat \<Rightarrow> bool" where
  "nucleus_removes row top_p j =
     (top_p < 1 \<and> 0 < j \<and>
      (case cumulative_probs row of None \<Rightarrow> False | Some c \<Rightarrow> c ! (j - 1) > top_p))"


section \<open>The sequence model (var_model.py)\<close>

text \<open>
  The model is embedded for one batch element: every operation of \<^verbatim>\<open>VAR.forward\<close>
  treats the elements of a batch independently.  Activations are lists of rows, one row
  of \<open>d_model\<close> reals per position.  The modules are in evaluation mode, so every
  \<^verbatim>\<open>nn.Dropout\<close> is the identity.  Weight matrices are lists of rows as torch stores
  them: \<^verbatim>\<open>nn.Linear(n, m)\<close> has an \<open>[m, n]\<close> weight and computes \<open>x W\<^sup>T + b\<close>.
\<close>

record linear_params =
  lin_weight :: matrix
  lin_bias :: vec

definition linear :: "linear_params \<Rightarrow> vec \<Rightarrow> vec" where
  "linear p x = map2 (+) (map (\<lambda>row. dot row x) (lin_weight p)) (lin_bias p)"

definition vadd :: "vec \<Rightarrow> vec \<Rightarrow> vec" where
  "vadd u v = map2 (+) u v"

subsection \<open>\<^verbatim>\<open>AdaptiveLayerNorm\<close>\<close>

text \<open>
  \<^verbatim>\<open>nn.LayerNorm(d_model, elementwise_affine=False)\<close> over the last dimension, with
  torch's default \<open>eps = 1e-5\<close> and the biased variance.
\<close>

definition layer_norm :: "vec \<Rightarrow> vec" where
  "layer_norm x =
     (let n = real (length x);
          mean = sum_list x / n;
          var = sum_list (map (\<lambda>a. (a - mean) * (a - mean)) x) / n
      in map (\<lambda>a. (a - mean) / sqrt (var + 1 / 100000)) x)"

definition adaLN :: "linear_params \<Rightarrow> vec \<Rightarrow> vec \<Rightarrow> vec" where
  \<comment> \<open>one position \<open>x\<close>; \<^verbatim>\<open>chunk(2, dim=-1)\<close> halves the projected condition\<close>
  "adaLN p x condition =
     (let scale_shift = linear p condition;
          half = length scale_shift div 2;
          scale = take half scale_shift;
          shift = drop half scale_shift
      in map2 (+) (map2 (\<lambda>a s. a * (1 + s)) (layer_norm x) scale) shift)"

subsection \<open>Causal mask and \<^verbatim>\<open>nn.MultiheadAttention\<close>\<close>

definition create_causal_mask :: "nat \<Rightarrow> bool list list" where
  \<comment> \<open>\<^verbatim>\<open>torch.tril(torch.ones(seq_len, seq_len, dtype=torch.bool))\<close>\<close>
  "create_causal_mask seq_len = map (\<lambda>i. map (\<lambda>j. j \<le> i) [0..<seq_len]) [0..<seq_len]"

definition invert_mask :: "bool list list \<Rightarrow> bool list list" where
  \<comment> \<open>\<^verbatim>\<open>~causal_mask\<close>\<close>
  "invert_mask m = map (map Not) m"

record mha_params =
  embed_dim :: nat
  num_heads :: nat
  in_proj :: linear_params
  out_proj :: linear_params

definition attn_softmax :: "logit list \<Rightarrow> real list" where
  \<comment> \<open>softmax of a row of scores; a masked score is negative infinity and has weight 0\<close>
  "attn_softmax scores = map (\<lambda>x. exp_logit x / sum_list (map exp_logit scores)) scores"

text \<open>
  Self-attention (\<open>query = key = value = xs\<close>) with a boolean \<open>attn_mask\<close>, in which
  \<open>True\<close> forbids attending.  The input projection of a position is split into query,
  key and value, and each head takes its slice of \<open>head_dim\<close> components of each.
\<close>

definition head_dim :: "mha_params \<Rightarrow> nat" where
  "head_dim p = embed_dim p div num_heads p"

definition query :: "mha_params \<Rightarrow> matrix \<Rightarrow> nat \<Rightarrow> nat \<Rightarrow> vec" where
  "query p xs h t =
     take (head_dim p) (drop (h * head_dim p) (take (embed_dim p) (linear (in_proj p) (xs ! t))))"

definition key :: "mha_params \<Rightarrow> matrix \<Rightarrow> nat \<Rightarrow> nat \<Rightarrow> vec" where
  "key p xs h t =
     take (head_dim p) (drop (h * head_dim p)
       (take (embed_dim p) (drop (embed_dim p) (linear (in_proj p) (xs ! t)))))"

definition val_proj :: "mha_params \<Rightarrow> matrix \<Rightarrow> nat \<Rightarrow> nat \<Rightarrow> vec" where
  "val_proj p xs h t =
     take (head_dim p) (drop (h * head_dim p) (drop (2 * embed_dim p) (linear (in_proj p) (xs ! t))))"

text \<open>
  Head \<open>h\<close> scores position \<open>i\<close> against every position \<open>j\<close> by the scaled dot
  product and puts negative infinity where the mask forbids; the scores are normalised by
  softmax and the value slices summed with these weights.
\<close>

definition attn_scores :: "mha_params \<Rightarrow> bool list list \<Rightarrow> matrix \<Rightarrow> nat \<Rightarrow> nat \<Rightarrow> logit list" where
  "attn_scores p attn_mask xs h i =
     map (\<lambda>j. if attn_mask ! i ! j then NegInf
              else Fin (dot (query p xs h i) (key p xs h j) / sqrt (real (head_dim p))))
       [0..<length xs]"

definition attn_head :: "mha_params \<Rightarrow> bool list list \<Rightarrow> matrix \<Rightarrow> nat \<Rightarrow> nat \<Rightarrow> vec" where
  "attn_head p attn_mask xs h i =
     (let w = attn_softmax (attn_scores p attn_mask xs h i)
      in map (\<lambda>c. sum_list (map (\<lambda>j. w ! j * (val_proj p xs h j ! c)) [0..<length xs]))
           [0..<head_dim p])"

text \<open>The output at position \<open>i\<close>: the heads are concatenated and projected.\<close>

definition mha_at :: "mha_params \<Rightarrow> bool list list \<Rightarrow> matrix \<Rightarrow> nat \<Rightarrow> vec" where
  "mha_at p attn_mask xs i =
     linear (out_proj p) (concat (map (\<lambda>h. attn_head p attn_mask xs h i) [0..<num_heads p]))"

definition multihead_attention :: "mha_params \<Rightarrow> bool list list \<Rightarrow> matrix \<Rightarrow> matrix" where
  "multihead_attention p attn_mask xs = map (mha_at p attn_mask xs) [0..<length xs]"

subsection \<open>\<^verbatim>\<open>TransformerBlock\<close>\<close>

text \<open>
  \<^verbatim>\<open>nn.GELU()\<close> is \<open>x \<Phi>(x)\<close> with \<open>\<Phi>\<close> the standard normal distribution function,
  \<open>(1 + erf (x / \<surd>2)) / 2\<close>; the error function is given by its power series.
\<close>

definition erf :: "real \<Rightarrow> real" where
  "erf x = 2 / sqrt pi * (\<Sum>n. (- 1) ^ n * x ^ (2 * n + 1) / (fact n * real (2 * n + 1)))"

definition gelu :: "real \<Rightarrow> real" where
  "gelu x = x * ((1 + erf (x / sqrt 2)) / 2)"

record block_params =
  adaLN1 :: linear_params
  adaLN2 :: linear_params
  attention :: mha_params
  ffn_in :: linear_params
  ffn_out :: linear_params

definition ffn :: "block_params \<Rightarrow> vec \<Rightarrow> vec" where
  "ffn b x = linear (ffn_out b) (map gelu (linear (ffn_in b) x))"

definition transformer_block :: "block_params \<Rightarrow> matrix \<Rightarrow> vec \<Rightarrow> bool list list \<Rightarrow> matrix" where
  "transformer_block b x condition attn_mask =
     (let x_norm = map (\<lambda>r. adaLN (adaLN1 b) r condition) x;
          attn_out = multihead_attention (attention b) attn_mask x_norm;
          x1 = map2 vadd x attn_out;
          x_norm2 = map (\<lambda>r. adaLN (adaLN2 b) r condition) x1;
          ffn_res = map (ffn b) x_norm2
      in map2 vadd x1 ffn_res)"

subsection \<open>\<^verbatim>\<open>VAR.forward\<close>\<close>

text \<open>
  The attributes of the model that \<^verbatim>\<open>VAR.__init__\<close> creates and the forward and
  generation passes read: \<open>d_model\<close>, the schedule \<open>scales\<close>, the four embedding
  tables, the blocks and the output projection.
\<close>

record VAR =
  d_model :: nat
  scales :: "int list"
  token_embedding :: matrix
  class_embedding :: matrix
  scale_embedding :: matrix
  pos_embedding :: matrix
  transformer_blocks :: "block_params list"
  to_logits :: linear_params

text \<open>\<^verbatim>\<open>nn.Embedding\<close>: a row of the table; an index outside the table is an error.\<close>

definition embedding :: "matrix \<Rightarrow> int \<Rightarrow> error + vec" where
  "embedding table t =
     (if 0 \<le> t \<and> t < int (length table) then Inr (table ! nat t) else Inl IndexError)"

fun embedding_all :: "matrix \<Rightarrow> int list \<Rightarrow> error + matrix" where
  "embedding_all table [] = Inr []"
| "embedding_all table (t # ts) =
     (case embedding table t of
        Inl e \<Rightarrow> Inl e
      | Inr r \<Rightarrow> (case embedding_all table ts of Inl e \<Rightarrow> Inl e | Inr rs \<Rightarrow> Inr (r # rs)))"

text \<open>
  \<^verbatim>\<open>x + self.pos_embedding[:, :seq_len, :]\<close>.  The slice has \<open>min seq_len total_seq_len\<close>
  rows; the sum is row by row when that is \<open>seq_len\<close>, broadcasts when the slice has one
  row, and is a shape error otherwise.
\<close>

definition add_positions :: "matrix \<Rightarrow> matrix \<Rightarrow> error + matrix" where
  "add_positions x pos_table =
     (let pos = take (length x) pos_table
      in if length pos = length x then Inr (map2 vadd x pos)
         else if length pos = 1 then Inr (map (\<lambda>r. vadd r (pos ! 0)) x)
         else Inl RuntimeError)"

definition make_condition :: "VAR \<Rightarrow> int option \<Rightarrow> error + vec" where
  "make_condition m class_labels =
     (case class_labels of
        Some c \<Rightarrow> embedding (class_embedding m) c
      | None \<Rightarrow> Inr (replicate (d_model m) 0))"

definition run_blocks :: "block_params list \<Rightarrow> matrix \<Rightarrow> vec \<Rightarrow> bool list list \<Rightarrow> matrix" where
  \<comment> \<open>\<^verbatim>\<open>for block in self.transformer_blocks: x = block(x, condition, attn_mask=attn_mask)\<close>\<close>
  "run_blocks blocks x condition attn_mask =
     fold (\<lambda>block x. transformer_block block x condition attn_mask) blocks x"

text \<open>
  The logits returned by \<^verbatim>\<open>VAR.forward\<close>.  The loss, when requested, is computed
  afterwards from these logits and the tokens and does not enter them.
\<close>

definition forward :: "VAR \<Rightarrow> int list \<Rightarrow> int option \<Rightarrow> error + matrix" where
  "forward m tokens class_labels =
     (let seq_len = length tokens
      in case embedding_all (token_embedding m) tokens of
           Inl e \<Rightarrow> Inl e
         | Inr x0 \<Rightarrow>
        (case add_positions x0 (pos_embedding m) of
           Inl e \<Rightarrow> Inl e
         | Inr x \<Rightarrow>
        (case make_condition m class_labels of
           Inl e \<Rightarrow> Inl e
         | Inr condition \<Rightarrow>
             (let causal_mask = create_causal_mask seq_len;
                  attn_mask = invert_mask causal_mask;
                  x' = run_blocks (transformer_blocks m) x condition attn_mask
              in Inr (map (linear (to_logits m)) x')))))"

subsection \<open>\<^verbatim>\<open>VAR.generate\<close>\<close>

text \<open>
  The logits for the next token (lines 304-323): from the condition alone when nothing
  has been generated yet, otherwise from the last position of the transformer run on the
  whole prefix.
\<close>

definition next_logits :: "VAR \<Rightarrow> vec \<Rightarrow> int list \<Rightarrow> error + vec" where
  "next_logits m condition generated =
     (let seq_len = length generated
      in if seq_len = 0 then Inr (linear (to_logits m) condition)
         else
           (case embedding_all (token_embedding m) generated of
              Inl e \<Rightarrow> Inl e
            | Inr x0 \<Rightarrow>
           (case add_positions x0 (pos_embedding m) of
              Inl e \<Rightarrow> Inl e
            | Inr x \<Rightarrow>
                (let causal_mask = create_causal_mask seq_len;
                     attn_mask = invert_mask causal_mask;
                     x' = run_blocks (transformer_blocks m) x condition attn_mask
                 in Inr (linear (to_logits m) (last x'))))))"

text \<open>
  \<^verbatim>\<open>torch.multinomial(probs, num_samples=1)\<close> draws an index with probability
  proportional to its weight.  The draw is made explicit: the caller supplies a number
  \<open>u\<close> in \<open>[0, 1)\<close> and the index is the first whose cumulative weight exceeds
  \<open>u\<close> times the total.  torch refuses weights that are NaN (\<open>None\<close> here), negative,
  or whose sum is not positive.
\<close>

definition multinomial :: "real list option \<Rightarrow> real \<Rightarrow> error + int" where
  "multinomial probs u =
     (case probs of
        None \<Rightarrow> Inl RuntimeError
      | Some ps \<Rightarrow>
          if (\<exists>p \<in> set ps. p < 0) \<or> sum_list ps \<le> 0 then Inl RuntimeError
          else Inr (int (length (takeWhile (\<lambda>c. c \<le> u * sum_list ps) (cumsum ps)))))"

text \<open>
  Line 326, \<^verbatim>\<open>logits / temperature\<close>.  The tensor holds 32-bit floats and
  \<open>temperature\<close> is a Python number: the CPU kernel converts it to a 32-bit float and
  divides entry by entry in that format, without raising.  The quotient of one entry is
  NaN, \<open>+\<infinity>\<close>, or a value a logit can have: \<open>-\<infinity>\<close> or a finite float.  A
  temperature that rounds to zero keeps its sign as a float; an entry divided by it is
  NaN when the entry is zero and an infinity of the sign of the quotient otherwise.  Any
  other quotient is rounded and becomes an infinity when it leaves the range.
\<close>

datatype float32 = NaN | PosInf | Logit (the_logit: logit)

definition float32_div :: "real \<Rightarrow> real \<Rightarrow> float32" where
  "float32_div x temperature =
     (let t = float32_round temperature
      in if t = 0 then
           (if x = 0 then NaN
            else if (0 < x) = (0 \<le> temperature) then PosInf
            else Logit NegInf)
         else
           (let q = float32_round (x / t)
            in if 2 ^ 128 \<le> q then PosInf
               else if q \<le> - (2 ^ 128) then Logit NegInf
               else Logit (Fin q)))"

text \<open>
  Lines 326-333: temperature, filtering, softmax and the draw.  The source divides
  without looking at \<open>temperature\<close>.  \<^verbatim>\<open>logits / temperature\<close> is a new tensor, so
  the filter writes into a tensor no one else holds: a store with that tensor alone.
  When the divided row holds \<open>+\<infinity>\<close> or NaN, the filter raises what it raises on
  any row of that length (its errors depend on the length only), its comparisons leave
  \<open>+\<infinity>\<close> and NaN in place, the softmax of the result is NaN and
  \<^verbatim>\<open>torch.multinomial\<close> refuses it.
\<close>

definition sample_token :: "vec \<Rightarrow> real \<Rightarrow> int \<Rightarrow> real \<Rightarrow> real \<Rightarrow> error + int" where
  "sample_token logits temperature top_k top_p u =
     (let scaled = map (\<lambda>x. float32_div x temperature) logits
      in if NaN \<in> set scaled \<or> PosInf \<in> set scaled then
           (case top_k_top_p_filtering (\<lambda>_. map (\<lambda>_. NegInf) logits) 0 top_k top_p NegInf of
              Inl e \<Rightarrow> Inl e
            | Inr _ \<Rightarrow> Inl RuntimeError)
         else
           (case top_k_top_p_filtering (\<lambda>_. map the_logit scaled) 0 top_k top_p NegInf of
              Inl e \<Rightarrow> Inl e
            | Inr (s, filtered_logits) \<Rightarrow> multinomial (softmax (s filtered_logits)) u))"

text \<open>
  The inner loop \<^verbatim>\<open>for _ in range(num_tokens_this_scale)\<close> and the outer loop over
  \<^verbatim>\<open>self.scales\<close>.  \<open>us\<close> is the sequence of random numbers; the token at position
  \<open>n\<close> is drawn with \<open>us n\<close>.
\<close>

fun generate_tokens ::
  "VAR \<Rightarrow> vec \<Rightarrow> real \<Rightarrow> int \<Rightarrow> real \<Rightarrow> (nat \<Rightarrow> real) \<Rightarrow> nat \<Rightarrow> int list \<Rightarrow> error + int list" where
  "generate_tokens m condition temperature top_k top_p us 0 generated = Inr generated"
| "generate_tokens m condition temperature top_k top_p us (Suc n) generated =
     (case next_logits m condition generated of
        Inl e \<Rightarrow> Inl e
      | Inr logits \<Rightarrow>
     (case sample_token logits temperature top_k top_p (us (length generated)) of
        Inl e \<Rightarrow> Inl e
      | Inr next_token \<Rightarrow>
          generate_tokens m condition temperature top_k top_p us n (generated @ [next_token])))"

fun generate_scales ::
  "VAR \<Rightarrow> vec \<Rightarrow> real \<Rightarrow> int \<Rightarrow> real \<Rightarrow> (nat \<Rightarrow> real) \<Rightarrow> int list \<Rightarrow> int list \<Rightarrow> error + int list" where
  "generate_scales m condition temperature top_k top_p us [] generated = Inr generated"
| "generate_scales m condition temperature top_k top_p us (scale # rest) generated =
     (let num_tokens_this_scale = scale * scale
      in case generate_tokens m condition temperature top_k top_p us
                (nat num_tokens_this_scale) generated of
           Inl e \<Rightarrow> Inl e
         | Inr generated' \<Rightarrow>
             generate_scales m condition temperature top_k top_p us rest generated')"

definition generate ::
  "VAR \<Rightarrow> int option \<Rightarrow> real \<Rightarrow> int \<Rightarrow> real \<Rightarrow> (nat \<Rightarrow> real) \<Rightarrow> error + int list" where
  "generate m class_labels temperature top_k top_p us =
     (case make_condition m class_labels of
        Inl e \<Rightarrow> Inl e
      | Inr condition \<Rightarrow>
          generate_scales m condition temperature top_k top_p us (scales m) [])"

subsection \<open>A small model\<close>

text \<open>
  The parameters of a \<^verbatim>\<open>VAR(vocab_size=2, d_model=2, n_layers=1, n_heads=1, d_ff=2,
  max_scale=2, num_classes=1)\<close> with simple weights, used to instantiate the theorems
  below; its \<open>total_seq_len\<close> is 5.
\<close>

definition example_block :: block_params where
  "example_block =
     \<lparr> adaLN1 = \<lparr> lin_weight = [[1, 0], [0, 1], [0, 0], [0, 0]], lin_bias = [0, 0, 0, 0] \<rparr>,
       adaLN2 = \<lparr> lin_weight = [[0, 0], [0, 0], [1, 0], [0, 1]], lin_bias = [0, 0, 0, 0] \<rparr>,
       attention =
         \<lparr> embed_dim = 2, num_heads = 1,
           in_proj = \<lparr> lin_weight = [[1, 0], [0, 1], [1, 0], [0, 1], [1, 0], [0, 1]],
                       lin_bias = [0, 0, 0, 0, 0, 0] \<rparr>,
           out_proj = \<lparr> lin_weight = [[1, 0], [0, 1]], lin_bias = [0, 0] \<rparr> \<rparr>,
       ffn_in = \<lparr> lin_weight = [[1, 0], [0, 1]], lin_bias = [0, 0] \<rparr>,
       ffn_out = \<lparr> lin_weight = [[1, 0], [0, 1]], lin_bias = [0, 0] \<rparr> \<rparr>"

definition example_model :: VAR where
  "example_model =
     \<lparr> d_model = 2,
       scales = get_multi_scale_patches 2,
       token_embedding = [[1, 0], [0, 1]],
       class_embedding = [[1, 1]],
       scale_embedding = [[0, 0], [0, 0]],
       pos_embedding = [[0, 0], [1, 0], [0, 1], [1, 1], [2, 0]],
       transformer_blocks = [example_block],
       to_logits = \<lparr> lin_weight = [[1, 0], [0, 1]], lin_bias = [0, 0] \<rparr> \<rparr>"

text \<open>
  The parameters of a \<^verbatim>\<open>VAR(vocab_size=2, d_model=2, n_layers=0, n_heads=1, d_ff=2,
  max_scale=2, num_classes=1)\<close>: no transformer block, a position table of zeros, the
  output projection the identity.  Its logits are the
  condition at the first step and the embedding of the last token afterwards.
\<close>

definition zero_layer_model :: VAR where
  "zero_layer_model =
     \<lparr> d_model = 2,
       scales = get_multi_scale_patches 2,
       token_embedding = [[1, 0], [0, 1]],
       class_embedding = [[1, 1]],
       scale_embedding = [[0, 0], [0, 0]],
       pos_embedding = [[0, 0], [0, 0], [0, 0], [0, 0], [0, 0]],
       transformer_blocks = [],
       to_logits = \<lparr> lin_weight = [[1, 0], [0, 1]], lin_bias = [0, 0] \<rparr> \<rparr>"

section \<open>The tokenizer: encode and decode (vqvae.py)\<close>

text \<open>
  A \<open>[B, C, H, W]\<close> tensor is a list of samples, each a list of channels, each a list
  of rows.  \<^verbatim>\<open>permute(0, 2, 3, 1)\<close> turns a \<open>[C, H, W]\<close> sample into \<open>[H, W, C]\<close> and
  \<^verbatim>\<open>permute(0, 3, 1, 2)\<close> turns it back.
\<close>

type_synonym tensor3 = "real list list list"
type_synonym tensor4 = "real list list list list"

definition permute_0231 :: "tensor4 \<Rightarrow> tensor4" where
  "permute_0231 x = map (\<lambda>sample. map transpose (transpose sample)) x"

definition permute_0312 :: "tensor4 \<Rightarrow> tensor4" where
  "permute_0312 x = map (\<lambda>sample. transpose (map transpose sample)) x"

text \<open>
  Line 68, \<^verbatim>\<open>quantized = x + (quantized - x).detach()\<close>, performs a subtraction and
  an addition, each rounded.
\<close>

definition straight_through :: "(real \<Rightarrow> real) \<Rightarrow> vec \<Rightarrow> vec \<Rightarrow> vec" where
  \<comment> \<open>line 68 on one feature vector \<open>x\<close> and its selected code vector\<close>
  "straight_through rnd x quantized = map2 (\<lambda>a q. rnd (a + rnd (q - a))) x quantized"

record quantizer_params =
  embedding_dim :: nat
  embeddings :: matrix

text \<open>
  \<^verbatim>\<open>VectorQuantizer.forward\<close> on one feature vector of the flattened input: the
  \<^verbatim>\<open>view(-1, embedding_dim)\<close> and the product with the codebook need the channel count
  to be \<open>embedding_dim\<close>; the index is selected as in lines 49-57; the result is the
  straight-through value and the index.
\<close>

definition quantize_cell :: "(real \<Rightarrow> real) \<Rightarrow> quantizer_params \<Rightarrow> vec \<Rightarrow> error + (vec \<times> int)" where
  "quantize_cell rnd p x =
     (if length x \<noteq> embedding_dim p then Inl RuntimeError
      else case encoding_index rnd (embeddings p) x of
             Inl e \<Rightarrow> Inl e
           | Inr i \<Rightarrow> Inr (straight_through rnd x (embeddings p ! i), int i))"

text \<open>
  \<^verbatim>\<open>VectorQuantizer.forward\<close>: every operation between the two permutations acts on
  the feature vectors one by one, so the model maps over the \<open>[B, H, W]\<close> grid of
  feature vectors.  It returns \<open>quantized\<close> as \<open>[B, C, H, W]\<close> and \<open>encodings\<close> as
  \<open>[B, H, W]\<close>; the loss (modelled above, with its weight \<open>commitment_cost\<close>) is left
  out, \<^verbatim>\<open>encode\<close> discards it.
\<close>

definition VectorQuantizer_forward ::
  "(real \<Rightarrow> real) \<Rightarrow> quantizer_params \<Rightarrow> tensor4 \<Rightarrow> error + (tensor4 \<times> int list list list)" where
  "VectorQuantizer_forward rnd p x =
     (case map_err (map_err (map_err (quantize_cell rnd p))) (permute_0231 x) of
        Inl e \<Rightarrow> Inl e
      | Inr cells \<Rightarrow>
          Inr (permute_0312 (map (map (map fst)) cells), map (map (map snd)) cells))"

text \<open>
  The tokenizer.  The convolutional encoder and decoder are opaque transforms between
  tensors.
\<close>

record VQVAE =
  encoder :: "tensor4 \<Rightarrow> tensor4"
  quantizer :: quantizer_params
  decoder :: "tensor4 \<Rightarrow> tensor4"

definition encode :: "(real \<Rightarrow> real) \<Rightarrow> VQVAE \<Rightarrow> tensor4 \<Rightarrow> error + (tensor4 \<times> int list list list)" where
  "encode rnd m x = VectorQuantizer_forward rnd (quantizer m) (encoder m x)"

definition decode :: "VQVAE \<Rightarrow> tensor4 \<Rightarrow> tensor4" where
  "decode m quantized = decoder m quantized"

definition decode_from_indices :: "VQVAE \<Rightarrow> int list list list \<Rightarrow> error + tensor4" where
  "decode_from_indices m indices =
     (case map_err (map_err (map_err (embedding (embeddings (quantizer m))))) indices of
        Inl e \<Rightarrow> Inl e
      | Inr quantized \<Rightarrow> Inr (decoder m (permute_0312 quantized)))"

text \<open>
  A tokenizer with one code vector \<open>2\<^sup>-\<^sup>2\<^sup>5\<close> of dimension 1, whose encoder maps the
  image to the single feature \<open>1\<close> and whose decoder returns its input.
\<close>

definition example_vqvae :: VQVAE where
  "example_vqvae =
     \<lparr> encoder = (\<lambda>_. [[[[1]]]]),
       quantizer = \<lparr> embedding_dim = 1, embeddings = [[1 / 33554432]] \<rparr>,
       decoder = (\<lambda>t. t) \<rparr>"

section \<open>Properties of the scale schedule\<close>

lemma scale_loop_eq:
  "scale_loop ss c st en = (st @ starts_from c ss, en @ ends_from c ss)"
  by (induction ss arbitrary: c st en) (simp_all add: Let_def)

lemma length_starts_from [simp]: "length (starts_from c ss) = length ss"
  by (induction ss arbitrary: c) simp_all

lemma length_ends_from [simp]: "length (ends_from c ss) = length ss"
  by (induction ss arbitrary: c) simp_all

lemma ends_minus_starts:
  "i < length ss \<Longrightarrow> ends_from c ss ! i - starts_from c ss ! i = ss ! i * ss ! i"
proof (induction ss arbitrary: c i)
  case Nil
  then show ?case by simp
next
  case (Cons s ss)
  then show ?case by (cases i) simp_all
qed

lemma starts_Suc_is_end:
  "Suc i < length ss \<Longrightarrow> starts_from c ss ! Suc i = ends_from c ss ! i"
proof (induction ss arbitrary: c i)
  case Nil
  then show ?case by simp
next
  case (Cons s ss)
  show ?case
  proof (cases i)
    case 0
    with Cons.prems show ?thesis by (cases ss) simp_all
  next
    case (Suc j)
    with Cons show ?thesis by simp
  qed
qed

lemma starts_from_0: "ss \<noteq> [] \<Longrightarrow> starts_from c ss ! 0 = c"
  by (cases ss) simp_all

lemma last_ends_from:
  "ss \<noteq> [] \<Longrightarrow> last (ends_from c ss) = c + total_seq_len_of ss"
proof (induction ss arbitrary: c)
  case Nil
  then show ?case by simp
next
  case (Cons s ss)
  show ?case
  proof (cases ss)
    case Nil
    then show ?thesis by (simp add: total_seq_len_of_def)
  next
    case (Cons t ts)
    with Cons.IH [of "c + s * s"] show ?thesis
      by (simp add: total_seq_len_of_def)
  qed
qed

lemma total_seq_len_of_upto:
  "total_seq_len_of [1..S] = (\<Sum>k = 1..S. k * k)"
  unfolding total_seq_len_of_def
  by (simp add: sum_list_distinct_conv_sum_set)

lemma compute_scale_positions_eq:
  "compute_scale_positions S = (starts_from 0 [1..S], ends_from 0 [1..S])"
  by (simp add: compute_scale_positions_def get_multi_scale_patches_def scale_loop_eq)

text \<open>
  C2.  For every \<open>max_scale = S \<ge> 1\<close> the schedule lists the scales \<open>1..S\<close>, and the
  intervals returned by \<open>compute_scale_positions\<close> tile \<open>[0, total_seq_len)\<close>: the
  first start is 0, each later start is the previous end, the interval of scale \<open>k\<close> has
  length \<open>k\<^sup>2\<close>, and the last end is \<open>total_seq_len\<close>, the sum of \<open>k\<^sup>2\<close> for
  \<open>k = 1..S\<close>; this is 30 for \<open>S = 4\<close> and 204 for \<open>S = 8\<close>.
\<close>

theorem schedule_tiles:
  assumes "1 \<le> S"
  shows "get_multi_scale_patches S = [1..S]
       \<and> length (fst (compute_scale_positions S)) = nat S
       \<and> length (snd (compute_scale_positions S)) = nat S
       \<and> fst (compute_scale_positions S) ! 0 = 0
       \<and> (\<forall>k. 1 \<le> k \<and> k < S \<longrightarrow>
            fst (compute_scale_positions S) ! nat k = snd (compute_scale_positions S) ! nat (k - 1))
       \<and> (\<forall>k. 1 \<le> k \<and> k \<le> S \<longrightarrow>
            snd (compute_scale_positions S) ! nat (k - 1)
              - fst (compute_scale_positions S) ! nat (k - 1) = k * k)
       \<and> last (snd (compute_scale_positions S)) = total_seq_len_of (get_multi_scale_patches S)
       \<and> total_seq_len_of (get_multi_scale_patches S) = (\<Sum>k = 1..S. k * k)
       \<and> total_seq_len_of (get_multi_scale_patches 4) = 30
       \<and> total_seq_len_of (get_multi_scale_patches 8) = 204"
proof -
  have len: "length [1..S] = nat S" by simp
  have ne: "[1..S] \<noteq> []" using assms by (simp add: upto_rec1)
  have tile: "fst (compute_scale_positions S) ! nat k = snd (compute_scale_positions S) ! nat (k - 1)"
    if "1 \<le> k \<and> k < S" for k
  proof -
    from that have "nat k = Suc (nat (k - 1))" by linarith
    moreover from that have "Suc (nat (k - 1)) < nat S" by linarith
    then have "Suc (nat (k - 1)) < length [1..S]" by simp
    ultimately show ?thesis
      using starts_Suc_is_end [of "nat (k - 1)" "[1..S]" 0]
      by (simp add: compute_scale_positions_eq)
  qed
  have width: "snd (compute_scale_positions S) ! nat (k - 1)
      - fst (compute_scale_positions S) ! nat (k - 1) = k * k"
    if "1 \<le> k \<and> k \<le> S" for k
  proof -
    from that have "nat (k - 1) < nat S" by linarith
    then have lt: "nat (k - 1) < length [1..S]" by simp
    from that have "1 + int (nat (k - 1)) \<le> S" by linarith
    then have "[1..S] ! nat (k - 1) = 1 + int (nat (k - 1))" by (rule nth_upto)
    with that have "[1..S] ! nat (k - 1) = k" by simp
    with ends_minus_starts [OF lt, of 0] show ?thesis
      by (simp add: compute_scale_positions_eq)
  qed
  have t4: "total_seq_len_of (get_multi_scale_patches 4) = 30"
    by (simp add: total_seq_len_of_def get_multi_scale_patches_def upto_rec1)
  have t8: "total_seq_len_of (get_multi_scale_patches 8) = 204"
    by (simp add: total_seq_len_of_def get_multi_scale_patches_def upto_rec1)
  show ?thesis
    using tile width t4 t8 ne
    by (simp add: compute_scale_positions_eq get_multi_scale_patches_def
        starts_from_0 last_ends_from total_seq_len_of_upto)
qed

theorem schedule_tiles_witness:
  "(1::int) \<le> 4
   \<and> get_multi_scale_patches 4 = [1, 2, 3, 4]
   \<and> fst (compute_scale_positions 4) ! 0 = 0
   \<and> fst (compute_scale_positions 4) ! 2 = snd (compute_scale_positions 4) ! 1
   \<and> snd (compute_scale_positions 4) ! 2 - fst (compute_scale_positions 4) ! 2 = 3 * 3
   \<and> last (snd (compute_scale_positions 4)) = 30"
proof -
  have h: "(1::int) \<le> 4" by simp
  have u: "[1..4::int] = [1, 2, 3, 4]" by (simp add: upto_rec1)
  from schedule_tiles [OF h] have
    a: "get_multi_scale_patches 4 = [1..4]"
    and b: "fst (compute_scale_positions 4) ! 0 = 0"
    and c: "\<forall>k. 1 \<le> k \<and> k < 4 \<longrightarrow>
            fst (compute_scale_positions 4) ! nat k = snd (compute_scale_positions 4) ! nat (k - 1)"
    and d: "\<forall>k. 1 \<le> k \<and> k \<le> 4 \<longrightarrow>
            snd (compute_scale_positions 4) ! nat (k - 1)
              - fst (compute_scale_positions 4) ! nat (k - 1) = k * k"
    and e: "last (snd (compute_scale_positions 4)) = total_seq_len_of (get_multi_scale_patches 4)"
    and f: "total_seq_len_of (get_multi_scale_patches 4) = 30"
    by blast+
  from c [rule_format, of 2] have c2:
    "fst (compute_scale_positions 4) ! 2 = snd (compute_scale_positions 4) ! 1" by simp
  from d [rule_format, of 3] have d3:
    "snd (compute_scale_positions 4) ! 2 - fst (compute_scale_positions 4) ! 2 = 3 * 3" by simp
  show ?thesis using a b c2 d3 e f u by simp
qed

section \<open>Construction with a degenerate schedule\<close>

lemma blocks_ok:
  assumes "0 < d" and "0 < h" and "d mod h = 0" and "0 \<le> f" and "0 \<le> p" and "p \<le> 1"
  shows "TransformerBlock_init d h f d p =
           Inr \<lparr> adaLN1_shape = [2 * d, d], adaLN2_shape = [2 * d, d],
                 attention_heads = (h, d div h), ffn_in_shape = [f, d], ffn_out_shape = [d, f] \<rparr>"
proof -
  from assms(3) have "h dvd d" by (simp add: dvd_eq_mod_eq_0)
  then have "d div h * h = d" by simp
  with assms show ?thesis
    by (simp add: TransformerBlock_init_def nn_Linear_def nn_MultiheadAttention_def nn_Dropout_def
        new_tensor_def bind_err_def Let_def)
qed

lemma map_err_const:
  "f = Inr y \<Longrightarrow> map_err (\<lambda>_. f) xs = Inr (map (\<lambda>_. y) xs)"
  by (induction xs) simp_all

lemma total_seq_len_of_nonneg: "0 \<le> total_seq_len_of ss"
  unfolding total_seq_len_of_def by (induction ss) simp_all




section \<open>Evaluating the rounding\<close>

text \<open>
  A number between \<open>2\<^sup>e\<close> and \<open>2\<^sup>e\<^sup>+\<^sup>1\<close> is rounded to a multiple of
  \<open>2\<^sup>e\<^sup>-\<^sup>2\<^sup>3\<close>; a multiple with a 24-bit significand is rounded to itself.
\<close>

lemma float32_round_eval:
  assumes "2 powr (of_int e) \<le> \<bar>x\<bar>" and "\<bar>x\<bar> < 2 powr (of_int (e + 1))" and "- 126 \<le> e"
  shows "float32_round x
       = 2 powr (of_int (e - 23)) * of_int (round_half_even (x / 2 powr (of_int (e - 23))))"
proof -
  have pos: "0 < \<bar>x\<bar>" using assms(1) powr_gt_zero [of 2 "of_int e"] by linarith
  then have nz: "x \<noteq> 0" by simp
  have a: "of_int e \<le> log 2 \<bar>x\<bar>" using assms(1) pos by (simp add: le_log_iff)
  have b: "log 2 \<bar>x\<bar> < of_int e + 1" using assms(2) pos by (simp add: log_less_iff)
  from a b have "\<lfloor>log 2 \<bar>x\<bar>\<rfloor> = e" by (simp add: floor_eq_iff)
  with assms(3) have "max \<lfloor>log 2 \<bar>x\<bar>\<rfloor> (- 126) = e" by simp
  with nz show ?thesis by (simp add: float32_round_def Let_def)
qed

lemma float32_zero: "float32_round 0 = 0"
  by (simp add: float32_round_def)

lemma rhe_int: "round_half_even (of_int k) = k"
  by (simp add: round_half_even_def)

lemma float32_round_exact:
  assumes "ulp = 2 powr (of_int (e - 23))" and "x = of_int m * ulp"
    and "2 ^ 23 \<le> \<bar>m\<bar>" and "\<bar>m\<bar> < 2 ^ 24" and "- 126 \<le> e"
  shows "float32_round x = x"
proof -
  have up: "0 < ulp" using assms(1) by simp
  have ax: "\<bar>x\<bar> = of_int \<bar>m\<bar> * ulp" using assms(2) up by (simp add: abs_mult)
  have p1: "(2::real) powr (of_int e) = 2 ^ 23 * ulp"
  proof -
    have "real_of_int e = 23 + of_int (e - 23)" by simp
    then have "(2::real) powr (of_int e) = 2 powr (23 + of_int (e - 23))"
      by (simp only:)
    also have "\<dots> = 2 powr 23 * 2 powr (of_int (e - 23))" by (rule powr_add)
    finally show ?thesis using assms(1) by simp
  qed
  have p2: "(2::real) powr (of_int (e + 1)) = 2 ^ 24 * ulp"
  proof -
    have "real_of_int (e + 1) = 24 + of_int (e - 23)" by simp
    then have "(2::real) powr (of_int (e + 1)) = 2 powr (24 + of_int (e - 23))"
      by (simp only:)
    also have "\<dots> = 2 powr 24 * 2 powr (of_int (e - 23))" by (rule powr_add)
    finally show ?thesis using assms(1) by simp
  qed
  have "real_of_int (2 ^ 23) \<le> of_int \<bar>m\<bar>" using assms(3) by (simp only: of_int_le_iff)
  then have h1: "(2::real) ^ 23 \<le> of_int \<bar>m\<bar>" by simp
  have lo: "2 powr (of_int e) \<le> \<bar>x\<bar>"
    unfolding p1 ax using h1 up by (intro mult_right_mono) simp_all
  have "real_of_int \<bar>m\<bar> < of_int (2 ^ 24)" using assms(4) by (simp only: of_int_less_iff)
  then have h2: "of_int \<bar>m\<bar> < (2::real) ^ 24" by simp
  have hi: "\<bar>x\<bar> < 2 powr (of_int (e + 1))"
    unfolding p2 ax using h2 up by (intro mult_strict_right_mono) simp_all
  have "x / ulp = of_int m" using assms(2) up by simp
  with float32_round_eval [OF lo hi assms(5)] assms(1,2) show ?thesis
    by (simp add: rhe_int)
qed

lemma ulp_pos: "(2::real) powr (of_int (24 - 23)) = 2" "(2::real) powr (of_int (25 - 23)) = 4"
  by simp_all

lemma f32_16777216: "float32_round 16777216 = 16777216"
  by (rule float32_round_exact [where e = 24 and m = 8388608 and ulp = 2]) simp_all

lemma f32_16785408: "float32_round 16785408 = 16785408"
  by (rule float32_round_exact [where e = 24 and m = 8392704 and ulp = 2]) simp_all

lemma f32_16781312: "float32_round 16781312 = 16781312"
  by (rule float32_round_exact [where e = 24 and m = 8390656 and ulp = 2]) simp_all

lemma f32_33562624: "float32_round 33562624 = 33562624"
  by (rule float32_round_exact [where e = 25 and m = 8390656 and ulp = 4]) simp_all

lemma f32_33570816: "float32_round 33570816 = 33570816"
  by (rule float32_round_exact [where e = 25 and m = 8392704 and ulp = 4]) simp_all

lemma f32_16785409: "float32_round 16785409 = 16785408"
proof -
  have lo: "2 powr (of_int 24) \<le> \<bar>16785409 :: real\<bar>" by simp
  have hi: "\<bar>16785409 :: real\<bar> < 2 powr (of_int (24 + 1))" by simp
  have r: "round_half_even (16785409 / 2) = 8392704"
    by (simp add: round_half_even_def)
  from float32_round_eval [OF lo hi] r show ?thesis by simp
qed

lemma f32_1: "float32_round 1 = 1"
  by (rule float32_round_exact [where e = 0 and m = 8388608 and ulp = "1 / 8388608"])
    (simp_all add: powr_minus inverse_eq_divide)

lemma f32_2: "float32_round 2 = 2"
  by (rule float32_round_exact [where e = 1 and m = 8388608 and ulp = "1 / 4194304"])
    (simp_all add: powr_minus inverse_eq_divide)

lemma f32_half: "float32_round (1 / 2) = 1 / 2"
  by (rule float32_round_exact [where e = "- 1" and m = 8388608 and ulp = "1 / 16777216"])
    (simp_all add: powr_minus inverse_eq_divide)

lemma f32_neg_half: "float32_round (- (1 / 2)) = - (1 / 2)"
  by (rule float32_round_exact [where e = "- 1" and m = "- 8388608" and ulp = "1 / 16777216"])
    (simp_all add: powr_minus inverse_eq_divide)

section \<open>Nearest-code selection\<close>

lemma argmin_scan_inv:
  assumes "best < length pre" and "bv = pre ! best"
    and "\<forall>j<length pre. bv \<le> pre ! j" and "\<forall>j<best. bv < pre ! j"
  shows "argmin_scan ds (length pre) best bv < length (pre @ ds)
       \<and> (\<forall>j<length (pre @ ds). (pre @ ds) ! argmin_scan ds (length pre) best bv \<le> (pre @ ds) ! j)
       \<and> (\<forall>j<argmin_scan ds (length pre) best bv.
              (pre @ ds) ! argmin_scan ds (length pre) best bv < (pre @ ds) ! j)"
  using assms
proof (induction ds arbitrary: pre best bv)
  case Nil
  then show ?case by simp
next
  case (Cons d ds)
  let ?pre = "pre @ [d]"
  show ?case
  proof (cases "d < bv")
    case True
    have 1: "length pre < length ?pre" by simp
    have 2: "d = ?pre ! length pre" by simp
    have 3: "\<forall>j<length ?pre. d \<le> ?pre ! j"
      using Cons.prems True by (auto simp: nth_append less_Suc_eq)
    have 4: "\<forall>j<length pre. d < ?pre ! j"
      using Cons.prems True by (auto simp: nth_append)
    from Cons.IH [OF 1 2 3 4] True show ?thesis by simp
  next
    case False
    have 1: "best < length ?pre" using Cons.prems by simp
    have 2: "bv = ?pre ! best" using Cons.prems by (simp add: nth_append)
    have 3: "\<forall>j<length ?pre. bv \<le> ?pre ! j"
      using Cons.prems False by (auto simp: nth_append less_Suc_eq)
    have 4: "\<forall>j<best. bv < ?pre ! j"
      using Cons.prems by (auto simp: nth_append)
    from Cons.IH [OF 1 2 3 4] False show ?thesis by simp
  qed
qed

lemma argmin_first_min:
  assumes "ds \<noteq> []"
  shows "\<exists>i. argmin ds = Inr i \<and> i < length ds \<and> (\<forall>j<length ds. ds ! i \<le> ds ! j)
            \<and> (\<forall>j<i. ds ! i < ds ! j)"
proof -
  from assms obtain d rest where ds: "ds = d # rest" by (cases ds) auto
  have "argmin_scan rest (length [d]) 0 d < length ([d] @ rest)
       \<and> (\<forall>j<length ([d] @ rest). ([d] @ rest) ! argmin_scan rest (length [d]) 0 d \<le> ([d] @ rest) ! j)
       \<and> (\<forall>j<argmin_scan rest (length [d]) 0 d.
              ([d] @ rest) ! argmin_scan rest (length [d]) 0 d < ([d] @ rest) ! j)"
    by (rule argmin_scan_inv) simp_all
  then show ?thesis by (simp add: ds argmin_def)
qed

lemma float_sum_exact: "float_sum (\<lambda>r. r) xs = sum_list xs"
proof -
  have "foldl (\<lambda>acc a. acc + a) s xs = s + sum_list xs" for s :: real
    by (induction xs arbitrary: s) simp_all
  from this [of 0] show ?thesis by (simp add: float_sum_def)
qed

lemma sq_expand:
  "length x = length c \<Longrightarrow>
   sum_list (map (\<lambda>a. a * a) x) + sum_list (map (\<lambda>a. a * a) c)
     - 2 * sum_list (map2 (*) x c) = sq_euclid x c"
proof (induction x c rule: list_induct2)
  case Nil
  then show ?case by (simp add: sq_euclid_def)
next
  case (Cons a x b c)
  then show ?case
    by (simp add: sq_euclid_def algebra_simps)
qed

lemma distances_row_exact:
  assumes "\<forall>c \<in> set weight. length c = length x"
  shows "distances_row (\<lambda>r. r) weight x = map (sq_euclid x) weight"
  using assms
  by (simp add: distances_row_def sum_sq_def matmul_entry_def float_sum_exact sq_expand)

text \<open>
  C6 (as stated, refuted).  In 32-bit floating point, for the codebook
  \<open>[[4096], [4097]]\<close> and the feature vector \<open>[4097]\<close>, the squares \<open>4097\<^sup>2\<close> and the
  product \<open>4097 \<cdot> 4097\<close> round to \<open>16785408\<close> and both computed distances are 0; the
  quantizer selects index 0, whose code vector is at squared distance 1, although the
  code vector of index 1 is at distance 0.
\<close>

theorem float32_selects_farther_code:
  "encoding_index float32_round [[4096], [4097]] [4097] = Inr 0
   \<and> sq_euclid [4097] ([[4096], [4097]] ! 1) < sq_euclid [4097] ([[4096], [4097]] ! 0)"
proof -
  have "distances_row float32_round [[4096], [4097]] [4097] = [0, 0]"
    by (simp add: distances_row_def sum_sq_def matmul_entry_def float_sum_def
        f32_16785409 f32_16785408 f32_16777216 f32_16781312 f32_33562624 f32_33570816
        float32_zero)
  then have "encoding_index float32_round [[4096], [4097]] [4097] = Inr 0"
    by (simp add: encoding_index_def argmin_def)
  then show ?thesis by (simp add: sq_euclid_def)
qed

text \<open>
  C6 (amended).  For a non-empty codebook the quantizer's index for a feature vector is
  the lowest index at which the distance row it computes (the expansion, each operation
  rounded) is minimal: no entry of the row is smaller and every earlier entry is
  strictly larger.  Whenever the computed row equals the squared Euclidean distances, as
  it always does in exact arithmetic when the dimensions agree, that index is an index
  of minimum squared Euclidean distance with ties broken by the lowest index.  The
  selection is a function of the codebook and the feature vector alone (lines 49-57
  draw no random number and read no other state), so repeated calls give the same index.
\<close>

theorem nearest_code_lowest_index:
  assumes "weight \<noteq> []"
  shows "\<exists>i. encoding_index rnd weight x = Inr i \<and> i < length weight
            \<and> (\<forall>j<length weight. distances_row rnd weight x ! i \<le> distances_row rnd weight x ! j)
            \<and> (\<forall>j<i. distances_row rnd weight x ! i < distances_row rnd weight x ! j)
            \<and> (distances_row rnd weight x = map (sq_euclid x) weight \<longrightarrow>
                  (\<forall>j<length weight. sq_euclid x (weight ! i) \<le> sq_euclid x (weight ! j))
                  \<and> (\<forall>j<i. sq_euclid x (weight ! i) < sq_euclid x (weight ! j)))
            \<and> ((\<forall>c \<in> set weight. length c = length x) \<longrightarrow>
                  distances_row (\<lambda>r. r) weight x = map (sq_euclid x) weight)"
proof -
  let ?d = "distances_row rnd weight x"
  have len: "length ?d = length weight" by (simp add: distances_row_def)
  with assms have ne: "?d \<noteq> []" by auto
  from argmin_first_min [OF ne] len obtain i where
    i: "argmin ?d = Inr i" "i < length weight"
       "\<forall>j<length weight. ?d ! i \<le> ?d ! j" "\<forall>j<i. ?d ! i < ?d ! j"
    by auto
  have e: "(\<forall>j<length weight. sq_euclid x (weight ! i) \<le> sq_euclid x (weight ! j))
         \<and> (\<forall>j<i. sq_euclid x (weight ! i) < sq_euclid x (weight ! j))"
    if eq: "?d = map (sq_euclid x) weight"
  proof -
    from i(2,3) have "\<forall>j<length weight. sq_euclid x (weight ! i) \<le> sq_euclid x (weight ! j)"
      unfolding eq by simp
    moreover from i(2,4) have "\<forall>j<i. sq_euclid x (weight ! i) < sq_euclid x (weight ! j)"
      unfolding eq by simp
    ultimately show ?thesis by simp
  qed
  have x: "(\<forall>c \<in> set weight. length c = length x) \<longrightarrow>
                  distances_row (\<lambda>r. r) weight x = map (sq_euclid x) weight"
    using distances_row_exact by blast
  from i e x show ?thesis unfolding encoding_index_def by blast
qed

theorem nearest_code_lowest_index_witness:
  "[[0], [1], [1::real]] \<noteq> []
   \<and> distances_row float32_round [[0], [1], [1]] [1] = map (sq_euclid [1]) [[0], [1], [1]]
   \<and> encoding_index float32_round [[0], [1], [1]] [1] = Inr 1
   \<and> sq_euclid [1] ([[0], [1], [1]] ! 1) = sq_euclid [1] ([[0], [1], [1]] ! 2)
   \<and> sq_euclid [1] ([[0], [1], [1]] ! 1) < sq_euclid [1] ([[0], [1], [1]] ! 0)"
proof -
  let ?w = "[[0], [1], [1::real]]"
  have h: "?w \<noteq> []" by simp
  have d: "distances_row float32_round ?w [1] = map (sq_euclid [1]) ?w"
    by (simp add: distances_row_def sum_sq_def matmul_entry_def float_sum_def sq_euclid_def
        float32_zero f32_1 f32_2)
  from nearest_code_lowest_index [OF h, of float32_round "[1]"] d obtain i where
    i: "encoding_index float32_round ?w [1] = Inr i" "i < length ?w"
       "\<forall>j<length ?w. sq_euclid [1] (?w ! i) \<le> sq_euclid [1] (?w ! j)"
       "\<forall>j<i. sq_euclid [1] (?w ! i) < sq_euclid [1] (?w ! j)"
    by blast
  have e: "sq_euclid [1] [1::real] = 0" "sq_euclid [1] [0::real] = 1"
    by (simp_all add: sq_euclid_def)
  from i(2) have "i = 0 \<or> i = 1 \<or> i = 2" by auto
  moreover have "i \<noteq> 0"
  proof
    assume "i = 0"
    with i(3) [rule_format, of 1] e show False by simp
  qed
  moreover have "i \<noteq> 2"
  proof
    assume "i = 2"
    with i(4) [rule_format, of 1] e show False by simp
  qed
  ultimately have "i = 1" by blast
  with i(1) d e show ?thesis by simp
qed

section \<open>The quantizer loss\<close>

text \<open>
  C3 (as stated, refuted).  With \<open>commitment_cost = 1/4\<close>, encoder output \<open>[0]\<close> and
  selected code vector \<open>[1]\<close>, the loss of the source and the formula of the
  specification have the same value \<open>5/4\<close> but different gradients: the source sends
  \<open>2\<close> to the code vector and \<open>-1/2\<close> to the encoder output, the formula sends
  \<open>1/2\<close> and \<open>-2\<close>.  The formula scales the wrong term.
\<close>

theorem loss_formula_swapped:
  "vq_loss (1/4) [0] [1] \<noteq> spec_vq_loss (1/4) [0] [1]"
  by (simp add: vq_loss_def spec_vq_loss_def mse_loss_def s_add_def s_scale_def
      detach_def codebook_lookup_def encoder_output_def grad_part_def)

lemma loss_value_vq:
  "loss_value (vq_loss cc x q)
     = (1 + cc) * (sum_list (map2 (\<lambda>u v. (u - v) * (u - v)) q x) / real (length q))"
  by (simp add: vq_loss_def mse_loss_def s_add_def s_scale_def
      detach_def codebook_lookup_def encoder_output_def Let_def distrib_right add_divide_distrib)

lemma loss_value_spec:
  "loss_value (spec_vq_loss cc x q)
     = (1 + cc) * (sum_list (map2 (\<lambda>u v. (u - v) * (u - v)) q x) / real (length q))"
  by (simp add: spec_vq_loss_def mse_loss_def s_add_def s_scale_def
      detach_def codebook_lookup_def encoder_output_def Let_def distrib_right add_divide_distrib)

lemma grad_q_vq:
  assumes "length q = length x"
  shows "grad_q (vq_loss cc x q) = map2 (\<lambda>u v. 2 * (u - v) / real (length q)) q x"
proof (rule nth_equalityI)
  show "length (grad_q (vq_loss cc x q))
      = length (map2 (\<lambda>u v. 2 * (u - v) / real (length q)) q x)"
    by (simp add: vq_loss_def mse_loss_def s_add_def s_scale_def grad_part_def
        detach_def codebook_lookup_def encoder_output_def Let_def)
next
  fix i
  assume "i < length (grad_q (vq_loss cc x q))"
  then have i: "i < length q" "i < length x"
    using assms
    by (simp_all add: vq_loss_def mse_loss_def s_add_def s_scale_def grad_part_def
        detach_def codebook_lookup_def encoder_output_def Let_def)
  then show "grad_q (vq_loss cc x q) ! i
      = map2 (\<lambda>u v. 2 * (u - v) / real (length q)) q x ! i"
    by (simp add: vq_loss_def mse_loss_def s_add_def s_scale_def grad_part_def
        detach_def codebook_lookup_def encoder_output_def Let_def)
qed

lemma grad_x_vq:
  assumes "length q = length x"
  shows "grad_x (vq_loss cc x q) = map2 (\<lambda>u v. cc * (2 * (v - u) / real (length q))) q x"
proof (rule nth_equalityI)
  show "length (grad_x (vq_loss cc x q))
      = length (map2 (\<lambda>u v. cc * (2 * (v - u) / real (length q))) q x)"
    by (simp add: vq_loss_def mse_loss_def s_add_def s_scale_def grad_part_def
        detach_def codebook_lookup_def encoder_output_def Let_def)
next
  fix i
  assume "i < length (grad_x (vq_loss cc x q))"
  then have i: "i < length q" "i < length x"
    using assms
    by (simp_all add: vq_loss_def mse_loss_def s_add_def s_scale_def grad_part_def
        detach_def codebook_lookup_def encoder_output_def Let_def)
  then show "grad_x (vq_loss cc x q) ! i
      = map2 (\<lambda>u v. cc * (2 * (v - u) / real (length q))) q x ! i"
    by (simp add: vq_loss_def mse_loss_def s_add_def s_scale_def grad_part_def
        detach_def codebook_lookup_def encoder_output_def Let_def algebra_simps
        diff_divide_distrib)
qed

lemma s_scale_one: "s_scale 1 s = s"
proof -
  have "(*) (1::real) = (\<lambda>a. a)" by (simp add: fun_eq_iff)
  then show ?thesis by (simp add: s_scale_def)
qed

text \<open>
  C3 (amended).  The quantizer loss is
  \<open>mse(quantized, stopgrad(input)) \<cdot> 1 + mse(stopgrad(quantized), input) \<cdot> commitment_cost\<close>:
  the term whose gradient reaches the code vectors is unscaled and the commitment term,
  whose gradient reaches the encoder output, carries \<open>commitment_cost\<close>.  Its value is
  \<open>(1 + commitment_cost)\<close> times the mean squared difference, which is also the value
  of the formula of the specification; its gradient with respect to the code vectors is
  that of the plain mean squared error and does not depend on \<open>commitment_cost\<close>; its
  gradient with respect to the encoder output is \<open>commitment_cost\<close> times that of the
  plain mean squared error.
\<close>

theorem vq_loss_terms:
  assumes "length quantized = length x" and "x \<noteq> []"
  shows "vq_loss commitment_cost x quantized
           = s_add (s_scale 1 (mse_loss (codebook_lookup quantized) (detach (encoder_output x))))
                   (s_scale commitment_cost
                      (mse_loss (detach (codebook_lookup quantized)) (encoder_output x)))
       \<and> loss_value (vq_loss commitment_cost x quantized)
           = (1 + commitment_cost)
               * (sum_list (map2 (\<lambda>u v. (u - v) * (u - v)) quantized x) / real (length x))
       \<and> loss_value (vq_loss commitment_cost x quantized)
           = loss_value (spec_vq_loss commitment_cost x quantized)
       \<and> grad_q (vq_loss commitment_cost x quantized)
           = map2 (\<lambda>u v. 2 * (u - v) / real (length x)) quantized x
       \<and> grad_x (vq_loss commitment_cost x quantized)
           = map2 (\<lambda>u v. commitment_cost * (2 * (v - u) / real (length x))) quantized x"
  using assms(1) loss_value_vq [of commitment_cost x quantized]
    loss_value_spec [of commitment_cost x quantized]
    grad_q_vq [OF assms(1), of commitment_cost] grad_x_vq [OF assms(1), of commitment_cost]
  by (simp add: s_scale_one) (simp add: vq_loss_def)

theorem vq_loss_terms_witness:
  "length [1, 5::real] = length [0, 2::real] \<and> [0, 2::real] \<noteq> []
   \<and> loss_value (vq_loss (1/4) [0, 2] [1, 5]) = 25 / 4
   \<and> grad_q (vq_loss (1/4) [0, 2] [1, 5]) = [1, 3]
   \<and> grad_x (vq_loss (1/4) [0, 2] [1, 5]) = [- (1/4), - (3/4)]"
proof -
  have h1: "length [1, 5::real] = length [0, 2::real]" by simp
  have h2: "[0, 2::real] \<noteq> []" by simp
  from vq_loss_terms [OF h1 h2, of "1/4", THEN conjunct2] show ?thesis by simp
qed

section \<open>Top-k and nucleus filtering\<close>

lemma cumsum_from_length [simp]: "length (cumsum_from a ps) = length ps"
  by (induction ps arbitrary: a) simp_all

lemma scatter_prefix:
  assumes "m \<le> length index" and "distinct index" and "\<forall>i \<in> set index. i < length self"
  shows "length (fold (\<lambda>j out. out[index ! j := src ! j]) [0..<m] self) = length self
       \<and> (\<forall>j<m. fold (\<lambda>j out. out[index ! j := src ! j]) [0..<m] self ! (index ! j) = src ! j)"
  using assms(1)
proof (induction m)
  case 0
  then show ?case by simp
next
  case (Suc m)
  let ?out = "fold (\<lambda>j out. out[index ! j := src ! j]) [0..<m] self"
  from Suc have IH: "length ?out = length self" "\<forall>j<m. ?out ! (index ! j) = src ! j"
    by simp_all
  have step: "fold (\<lambda>j out. out[index ! j := src ! j]) [0..<Suc m] self
      = ?out[index ! m := src ! m]" by simp
  have m: "m < length index" using Suc.prems by simp
  then have inb: "index ! m < length ?out" using assms(3) IH(1) by simp
  have "?out[index ! m := src ! m] ! (index ! j) = src ! j" if "j < Suc m" for j
  proof (cases "j = m")
    case True
    with inb show ?thesis by simp
  next
    case False
    with that have jm: "j < m" by simp
    with m have "index ! j \<noteq> index ! m"
      using assms(2) by (simp add: nth_eq_iff_index_eq)
    with IH(2) jm show ?thesis by simp
  qed
  with IH(1) step show ?case by simp
qed

lemma scatter_nth:
  assumes "distinct index" and "\<forall>i \<in> set index. i < length self" and "j < length index"
  shows "scatter self index src ! (index ! j) = src ! j"
  using scatter_prefix [OF le_refl assms(1,2), of src] assms(3)
  by (simp add: scatter_def)

lemma scatter_length:
  assumes "distinct index" and "\<forall>i \<in> set index. i < length self"
  shows "length (scatter self index src) = length self"
  using scatter_prefix [OF le_refl assms(1,2), of src]
  by (simp add: scatter_def)

lemma sort_descending_length [simp]: "length (sort_descending row) = length row"
  by (simp add: sort_descending_def)

lemma sort_descending_mset:
  "mset (sort_descending row) = mset (zip row [0..<length row])"
  by (simp add: sort_descending_def)

lemma sort_descending_set:
  "set (sort_descending row) = set (zip row [0..<length row])"
  using sort_descending_mset [of row] by (metis set_mset_mset)

lemma sort_descending_indices_mset:
  "mset (map snd (sort_descending row)) = mset (map snd (zip row [0..<length row]))"
proof -
  have "image_mset snd (mset (sort_descending row))
      = image_mset snd (mset (zip row [0..<length row]))"
    by (simp only: sort_descending_mset)
  then show ?thesis by (simp only: mset_map)
qed

lemma sort_descending_distinct: "distinct (map snd (sort_descending row))"
proof -
  have "distinct (map snd (zip row [0..<length row]))" by simp
  with sort_descending_indices_mset [of row] show ?thesis
    by (metis mset_eq_imp_distinct_iff)
qed

lemma sort_descending_indices_set:
  "set (map snd (sort_descending row)) = {0..<length row}"
proof -
  have "set (map snd (zip row [0..<length row])) = {0..<length row}" by simp
  with sort_descending_indices_mset [of row] show ?thesis
    by (metis mset_eq_setD)
qed

lemma sort_descending_pair:
  assumes "j < length row"
  shows "snd (sort_descending row ! j) < length row
       \<and> fst (sort_descending row ! j) = row ! snd (sort_descending row ! j)"
proof -
  from assms have "sort_descending row ! j \<in> set (sort_descending row)" by simp
  then have "sort_descending row ! j \<in> set (zip row [0..<length row])"
    by (simp only: sort_descending_set)
  then obtain i where "i < length row" "sort_descending row ! j = (row ! i, i)"
    by (auto simp: set_zip)
  then show ?thesis by simp
qed

lemma sort_descending_sorted: "sorted (rev (map fst (sort_descending row)))"
  by (simp add: sort_descending_def rev_map)

lemma sort_descending_head_max:
  assumes "i < length row"
  shows "row ! i \<le> fst (sort_descending row ! 0)"
proof -
  have "(row ! i, i) \<in> set (zip row [0..<length row])"
    using assms by (auto simp: set_zip)
  then have "(row ! i, i) \<in> set (sort_descending row)"
    by (simp only: sort_descending_set)
  then obtain j where j: "j < length (sort_descending row)" "sort_descending row ! j = (row ! i, i)"
    by (auto simp: in_set_conv_nth)
  from j(1) have "map fst (sort_descending row) ! j \<le> map fst (sort_descending row) ! 0"
    by (intro sorted_rev_nth_mono [OF sort_descending_sorted]) simp_all
  moreover from j(1) have "0 < length (sort_descending row)" by auto
  ultimately show ?thesis using j by (simp only: nth_map fst_conv)
qed


lemma topk_threshold_in_row:
  assumes "0 < k" and "k \<le> length row"
  shows "last (take k (rev (sort row))) \<in> set row"
proof -
  from assms have "0 < length (take k (rev (sort row)))" by simp
  then have "take k (rev (sort row)) \<noteq> []" by blast
  then have "last (take k (rev (sort row))) \<in> set (take k (rev (sort row)))"
    by (rule last_in_set)
  then have "last (take k (rev (sort row))) \<in> set (rev (sort row))"
    by (rule in_set_takeD)
  then show ?thesis by simp
qed

lemma masked_assign_length [simp]:
  "length remove = length row \<Longrightarrow> length (masked_assign row remove fv) = length row"
  by (simp add: masked_assign_def)

lemma masked_assign_nth:
  "length remove = length row \<Longrightarrow> i < length row \<Longrightarrow>
   masked_assign row remove fv ! i = (if remove ! i then fv else row ! i)"
  by (simp add: masked_assign_def)

text \<open>The effect of the top-k step on the row it writes.\<close>

lemma top_k_step_result:
  assumes "top_k \<le> int (length (s r))"
  shows "\<exists>row1. top_k_step s r top_k NegInf = Inr (s(r := row1))
           \<and> length row1 = length (s r)
           \<and> (\<forall>i<length (s r). row1 ! i = s r ! i \<or> row1 ! i = NegInf)
           \<and> (\<forall>i<length (s r). (\<forall>j<length (s r). s r ! j \<le> s r ! i) \<longrightarrow> row1 ! i = s r ! i)"
proof (cases "0 < top_k")
  case False
  then have "top_k_step s r top_k NegInf = Inr (s(r := s r))"
    by (simp add: top_k_step_def)
  then show ?thesis by blast
next
  case True
  let ?row = "s r"
  let ?thr = "last (take (nat top_k) (rev (sort ?row)))"
  let ?rem = "map (\<lambda>x. x < ?thr) ?row"
  let ?row1 = "masked_assign ?row ?rem NegInf"
  from True assms have k: "0 < nat top_k" "nat top_k \<le> length ?row" by simp_all
  then have "topk ?row (nat top_k) = Inr (take (nat top_k) (rev (sort ?row)))"
    by (simp add: topk_def)
  with True have res: "top_k_step s r top_k NegInf = Inr (s(r := ?row1))"
    by (simp add: top_k_step_def Let_def)
  have len: "length ?row1 = length ?row" by simp
  have same: "\<forall>i<length ?row. ?row1 ! i = ?row ! i \<or> ?row1 ! i = NegInf"
    by (simp add: masked_assign_nth)
  have thr: "?thr \<in> set ?row" using k by (rule topk_threshold_in_row)
  have keep: "?row1 ! i = ?row ! i"
    if i: "i < length ?row" and mx: "\<forall>j<length ?row. ?row ! j \<le> ?row ! i" for i
  proof -
    from thr obtain j where "j < length ?row" "?row ! j = ?thr"
      by (auto simp: in_set_conv_nth)
    with mx have "?thr \<le> ?row ! i" by auto
    then have "\<not> ?row ! i < ?thr" by simp
    with i show ?thesis by (simp add: masked_assign_nth)
  qed
  from res len same keep show ?thesis by blast
qed

lemma top_k_step_error:
  assumes "int (length (s r)) < top_k"
  shows "top_k_step s r top_k fv = Inl RuntimeError"
  using assms by (simp add: top_k_step_def topk_def)

text \<open>The effect of the nucleus step on the row it writes.\<close>

lemma nucleus_mask_result:
  assumes "row \<noteq> []"
  shows "\<exists>remove. nucleus_mask row top_p = Inr remove \<and> length remove = length row
           \<and> \<not> remove ! snd (sort_descending row ! 0)"
proof -
  let ?pairs = "sort_descending row"
  let ?idx = "map snd ?pairs"
  let ?above = "case softmax (map fst ?pairs) of
                     None \<Rightarrow> map (\<lambda>_. False) (map fst ?pairs)
                   | Some probs \<Rightarrow> map (\<lambda>c. c > top_p) (cumsum probs)"
  let ?sh = "False # butlast ?above"
  have res: "nucleus_mask row top_p = Inr (scatter ?sh ?idx ?sh)"
    using assms by (simp add: nucleus_mask_def Let_def)
  have cl: "length (cumsum_from a ps) = length ps" for a ps
    by (induction ps arbitrary: a) simp_all
  have la: "length ?above = length row"
    by (simp add: softmax_def cumsum_def cl split: option.split)
  with assms have lsh: "length ?sh = length row" by (cases row) simp_all
  have d: "distinct ?idx" by (rule sort_descending_distinct)
  have b: "\<forall>i \<in> set ?idx. i < length ?sh"
    using sort_descending_indices_set [of row] lsh by auto
  have 0: "0 < length ?idx" using assms by simp
  have "scatter ?sh ?idx ?sh ! (?idx ! 0) = ?sh ! 0"
    using d b 0 by (rule scatter_nth)
  moreover have "?idx ! 0 = snd (?pairs ! 0)" using 0 by simp
  ultimately have "\<not> scatter ?sh ?idx ?sh ! snd (?pairs ! 0)" by simp
  moreover have "length (scatter ?sh ?idx ?sh) = length row"
    using scatter_length [OF d b] lsh by simp
  ultimately show ?thesis using res by blast
qed

lemma top_p_step_result:
  assumes "s r \<noteq> []"
  shows "\<exists>row2. top_p_step s r top_p NegInf = Inr (s(r := row2))
           \<and> length row2 = length (s r)
           \<and> (\<forall>i<length (s r). row2 ! i = s r ! i \<or> row2 ! i = NegInf)
           \<and> row2 ! snd (sort_descending (s r) ! 0) = s r ! snd (sort_descending (s r) ! 0)"
proof (cases "top_p < 1")
  case False
  then have "top_p_step s r top_p NegInf = Inr (s(r := s r))"
    by (simp add: top_p_step_def)
  then show ?thesis by blast
next
  case True
  from nucleus_mask_result [OF assms, of top_p] obtain remove where
    rm: "nucleus_mask (s r) top_p = Inr remove" "length remove = length (s r)"
        "\<not> remove ! snd (sort_descending (s r) ! 0)"
    by blast
  let ?row2 = "masked_assign (s r) remove NegInf"
  from True rm(1) have res: "top_p_step s r top_p NegInf = Inr (s(r := ?row2))"
    by (simp add: top_p_step_def)
  from assms have "0 < length (s r)" by simp
  then have i0: "snd (sort_descending (s r) ! 0) < length (s r)"
    using sort_descending_pair by blast
  have "length ?row2 = length (s r)" using rm(2) by simp
  moreover have "\<forall>i<length (s r). ?row2 ! i = s r ! i \<or> ?row2 ! i = NegInf"
    using rm(2) by (simp add: masked_assign_nth)
  moreover have "?row2 ! snd (sort_descending (s r) ! 0) = s r ! snd (sort_descending (s r) ! 0)"
    using rm(2,3) i0 by (simp add: masked_assign_nth)
  ultimately show ?thesis using res by blast
qed


lemma filtering_result:
  assumes "s r \<noteq> []" and "top_k \<le> int (length (s r))"
  shows "\<exists>row2 i. top_k_top_p_filtering s r top_k top_p NegInf = Inr (s(r := row2), r)
           \<and> length row2 = length (s r)
           \<and> (\<forall>j<length (s r). row2 ! j = s r ! j \<or> row2 ! j = NegInf)
           \<and> i < length (s r) \<and> row2 ! i = s r ! i
           \<and> (\<forall>j<length (s r). s r ! j \<le> s r ! i)"
proof -
  let ?row = "s r"
  from top_k_step_result [where s = s and r = r, OF assms(2)] obtain row1 where
    k: "top_k_step s r top_k NegInf = Inr (s(r := row1))"
       "length row1 = length ?row"
       "\<forall>i<length ?row. row1 ! i = ?row ! i \<or> row1 ! i = NegInf"
       "\<forall>i<length ?row. (\<forall>j<length ?row. ?row ! j \<le> ?row ! i) \<longrightarrow> row1 ! i = ?row ! i"
    by blast
  let ?s1 = "s(r := row1)"
  from assms(1) k(2) have ne1: "?s1 r \<noteq> []" by auto
  from top_p_step_result [where s = "?s1" and r = r and top_p = top_p, OF ne1] obtain row2 where
    p: "top_p_step ?s1 r top_p NegInf = Inr (?s1(r := row2))"
       "length row2 = length row1"
       "\<forall>i<length row1. row2 ! i = row1 ! i \<or> row2 ! i = NegInf"
       "row2 ! snd (sort_descending row1 ! 0) = row1 ! snd (sort_descending row1 ! 0)"
    by auto
  let ?i0 = "snd (sort_descending row1 ! 0)"
  let ?m = "snd (sort_descending ?row ! 0)"
  from assms(1) have pos: "0 < length ?row" by simp
  with k(2) have pos1: "0 < length row1" by simp
  have i0: "?i0 < length row1" "fst (sort_descending row1 ! 0) = row1 ! ?i0"
    using sort_descending_pair [OF pos1] by simp_all
  have m: "?m < length ?row" "fst (sort_descending ?row ! 0) = ?row ! ?m"
    using sort_descending_pair [OF pos] by simp_all
  have max1: "\<forall>j<length row1. row1 ! j \<le> row1 ! ?i0"
    using sort_descending_head_max [of _ row1] i0(2) by simp
  have maxm: "\<forall>j<length ?row. ?row ! j \<le> ?row ! ?m"
    using sort_descending_head_max [of _ ?row] m(2) by simp
  have le1: "row1 ! j \<le> ?row ! j" if "j < length ?row" for j
    using k(3) that by (cases "row1 ! j") auto
  from k(4) m(1) maxm have keepm: "row1 ! ?m = ?row ! ?m" by blast
  have a: "?row ! ?m \<le> row1 ! ?i0" using max1 m(1) k(2) keepm by metis
  have b: "row1 ! ?i0 \<le> ?row ! ?i0" using le1 i0(1) k(2) by simp
  have c: "?row ! ?i0 \<le> ?row ! ?m" using maxm i0(1) k(2) by simp
  from a b c have e1: "row1 ! ?i0 = ?row ! ?i0" and e2: "?row ! ?i0 = ?row ! ?m" by auto
  have maxi0: "\<forall>j<length ?row. ?row ! j \<le> ?row ! ?i0" using maxm e2 by simp
  have res: "top_k_top_p_filtering s r top_k top_p NegInf = Inr (s(r := row2), r)"
    using k(1) p(1) by (simp add: top_k_top_p_filtering_def)
  have same: "\<forall>j<length ?row. row2 ! j = ?row ! j \<or> row2 ! j = NegInf"
    using k(2,3) p(3) by metis
  have "row2 ! ?i0 = ?row ! ?i0" using p(4) e1 by simp
  with res p(2) k(2) same i0(1) maxi0 show ?thesis by auto
qed

text \<open>
  C5.  For a row with at least one entry and the default \<open>filter_value\<close> (negative
  infinity), top-k filtering followed by top-p filtering never eliminates every entry:
  the call either fails inside \<^verbatim>\<open>torch.topk\<close>, which happens exactly when \<open>top_k\<close>
  exceeds the number of entries, or it returns a row in which some position that held a
  largest logit of the input still holds its input value; when the input has a finite
  entry, that position is not negative infinity.  This holds for every \<open>top_k\<close> and
  every \<open>top_p\<close>, in particular for \<open>top_k \<ge> 0\<close> and \<open>top_p\<close> in \<open>(0, 1]\<close>.
\<close>

theorem filtering_keeps_a_maximum:
  assumes "s logits \<noteq> []"
  shows "case top_k_top_p_filtering s logits top_k top_p NegInf of
           Inl e \<Rightarrow> int (length (s logits)) < top_k
         | Inr (s', r) \<Rightarrow>
             (\<exists>i<length (s logits). s' r ! i = s logits ! i
                  \<and> (\<forall>j<length (s logits). s logits ! j \<le> s logits ! i)
                  \<and> ((\<exists>x. Fin x \<in> set (s logits)) \<longrightarrow> s' r ! i \<noteq> NegInf))"
proof (cases "int (length (s logits)) < top_k")
  case True
  then show ?thesis
    by (simp add: top_k_top_p_filtering_def top_k_step_error)
next
  case False
  then have le: "top_k \<le> int (length (s logits))" by simp
  from filtering_result [where s = s and r = logits and top_p = top_p, OF assms le] obtain row2 i where
    r: "top_k_top_p_filtering s logits top_k top_p NegInf = Inr (s(logits := row2), logits)"
       "i < length (s logits)" "row2 ! i = s logits ! i"
       "\<forall>j<length (s logits). s logits ! j \<le> s logits ! i"
    by blast
  have fin: "row2 ! i \<noteq> NegInf" if "\<exists>x. Fin x \<in> set (s logits)"
  proof -
    from that obtain x j where "j < length (s logits)" "s logits ! j = Fin x"
      by (auto simp: in_set_conv_nth)
    with r(4) have "Fin x \<le> s logits ! i" by metis
    then show ?thesis using r(3) by (cases "s logits ! i") auto
  qed
  have "\<exists>i<length (s logits). row2 ! i = s logits ! i
          \<and> (\<forall>j<length (s logits). s logits ! j \<le> s logits ! i)
          \<and> ((\<exists>x. Fin x \<in> set (s logits)) \<longrightarrow> row2 ! i \<noteq> NegInf)"
    using r(2,3,4) fin by blast
  with r(1) show ?thesis by simp
qed


theorem filtering_keeps_a_maximum_witness:
  "(\<lambda>_::nat. [Fin 0, Fin 0]) 0 \<noteq> []
   \<and> (\<exists>s' i. top_k_top_p_filtering (\<lambda>_. [Fin 0, Fin 0]) 0 2 (1/4) NegInf = Inr (s', 0)
          \<and> s' 0 = [Fin 0, NegInf] \<and> i < 2 \<and> s' 0 ! i = Fin 0)"
proof -
  let ?s = "\<lambda>_::nat. [Fin 0, Fin 0]"
  have h: "?s 0 \<noteq> []" by simp
  have ev: "top_k_top_p_filtering ?s 0 2 (1/4) NegInf = Inr (?s(0 := [Fin 0, NegInf]), 0)"
    by (simp add: top_k_top_p_filtering_def top_k_step_def top_p_step_def topk_def
        nucleus_mask_def sort_descending_def softmax_def exp_logit_def cumsum_def scatter_def
        masked_assign_def Let_def)
  from filtering_keeps_a_maximum [where s = "?s" and logits = 0 and top_k = 2 and top_p = "1/4", OF h]
  have "\<exists>i<length (?s 0). (?s(0 := [Fin 0, NegInf])) 0 ! i = ?s 0 ! i
           \<and> (\<forall>j<length (?s 0). ?s 0 ! j \<le> ?s 0 ! i)
           \<and> ((\<exists>x. Fin x \<in> set (?s 0)) \<longrightarrow> (?s(0 := [Fin 0, NegInf])) 0 ! i \<noteq> NegInf)"
    by (simp only: ev sum.case prod.case)
  then obtain i where "i < length (?s 0)" "(?s(0 := [Fin 0, NegInf])) 0 ! i = ?s 0 ! i"
    by blast
  then have "i < 2" "(?s(0 := [Fin 0, NegInf])) 0 ! i = Fin 0"
    by (auto simp: less_Suc_eq)
  with ev h show ?thesis by auto
qed

lemma top_k_step_frame:
  assumes "top_k_step s r top_k fv = Inr s1"
  shows "\<exists>row1. s1 = s(r := row1) \<and> length row1 = length (s r)
           \<and> (\<forall>i<length (s r). row1 ! i = s r ! i \<or> row1 ! i = fv)"
proof (cases "0 < top_k")
  case False
  with assms have "s1 = s(r := s r)" by (simp add: top_k_step_def)
  then show ?thesis by blast
next
  case True
  with assms obtain vals where
    "s1 = s(r := masked_assign (s r) (map (\<lambda>x. x < last vals) (s r)) fv)"
    by (auto simp: top_k_step_def Let_def split: sum.splits)
  moreover have "length (masked_assign (s r) (map (\<lambda>x. x < last vals) (s r)) fv) = length (s r)"
    by simp
  moreover have "\<forall>i<length (s r).
      masked_assign (s r) (map (\<lambda>x. x < last vals) (s r)) fv ! i = s r ! i
      \<or> masked_assign (s r) (map (\<lambda>x. x < last vals) (s r)) fv ! i = fv"
    by (simp add: masked_assign_nth)
  ultimately show ?thesis by blast
qed

lemma top_p_step_frame:
  assumes "top_p_step s r top_p fv = Inr s2"
  shows "\<exists>row2. s2 = s(r := row2) \<and> length row2 = length (s r)
           \<and> (\<forall>i<length (s r). row2 ! i = s r ! i \<or> row2 ! i = fv)"
proof (cases "top_p < 1")
  case False
  with assms have "s2 = s(r := s r)" by (simp add: top_p_step_def)
  then show ?thesis by blast
next
  case True
  with assms obtain remove where
    rm: "nucleus_mask (s r) top_p = Inr remove" "s2 = s(r := masked_assign (s r) remove fv)"
    by (auto simp: top_p_step_def split: sum.splits)
  have "s r \<noteq> []"
  proof
    assume "s r = []"
    then have "nucleus_mask (s r) top_p = Inl IndexError" by (simp add: nucleus_mask_def)
    with rm(1) show False by simp
  qed
  from nucleus_mask_result [OF this, of top_p] rm(1) have len: "length remove = length (s r)"
    by auto
  then have "length (masked_assign (s r) remove fv) = length (s r)" by simp
  moreover have "\<forall>i<length (s r). masked_assign (s r) remove fv ! i = s r ! i
      \<or> masked_assign (s r) remove fv ! i = fv"
    using len by (simp add: masked_assign_nth)
  ultimately show ?thesis using rm(2) by blast
qed

subsection \<open>The filter writes into its argument\<close>

lemma masked_assign_map:
  "masked_assign row (map P row) fv = map (\<lambda>x. if P x then fv else x) row"
  by (rule nth_equalityI) (simp_all add: masked_assign_def)

lemma top_k_step_row:
  assumes "top_k_step s r top_k fv = Inr s1"
  shows "s1 = s(r := row_after_top_k (s r) top_k fv)"
proof (cases "0 < top_k")
  case False
  with assms show ?thesis by (auto simp add: top_k_step_def row_after_top_k_def)
next
  case True
  with assms have k: "nat top_k \<le> length (s r)" "nat top_k \<noteq> 0"
    by (auto simp add: top_k_step_def topk_def split: if_splits)
  then have "0 < length (take (nat top_k) (rev (sort (s r))))" by simp
  then have "take (nat top_k) (rev (sort (s r))) \<noteq> []" by blast
  then have "last (take (nat top_k) (rev (sort (s r))))
      = take (nat top_k) (rev (sort (s r))) ! (length (take (nat top_k) (rev (sort (s r)))) - 1)"
    by (rule last_conv_nth)
  with k have "last (take (nat top_k) (rev (sort (s r)))) = kth_largest (s r) (nat top_k)"
    by (simp add: kth_largest_def min_def)
  with assms True k show ?thesis
    by (auto simp add: top_k_step_def topk_def row_after_top_k_def masked_assign_map Let_def
        split: if_splits)
qed

lemma nucleus_mask_rank:
  assumes "nucleus_mask row top_p = Inr remove" and "top_p < 1" and "j < length row"
  shows "remove ! snd (sort_descending row ! j) = nucleus_removes row top_p j"
proof -
  let ?pairs = "sort_descending row"
  let ?idx = "map snd ?pairs"
  let ?above = "case softmax (map fst ?pairs) of
                     None \<Rightarrow> map (\<lambda>_. False) (map fst ?pairs)
                   | Some probs \<Rightarrow> map (\<lambda>c. c > top_p) (cumsum probs)"
  let ?sh = "False # butlast ?above"
  from assms(3) have ne: "row \<noteq> []" by auto
  with assms(1) have rm: "remove = scatter ?sh ?idx ?sh"
    by (simp add: nucleus_mask_def Let_def)
  have la: "length ?above = length row"
    by (simp add: softmax_def cumsum_def split: option.split)
  with ne have lsh: "length ?sh = length row" by (cases row) simp_all
  have d: "distinct ?idx" by (rule sort_descending_distinct)
  have b: "\<forall>i \<in> set ?idx. i < length ?sh"
    using sort_descending_indices_set [of row] lsh by auto
  have jl: "j < length ?idx" using assms(3) by simp
  have "scatter ?sh ?idx ?sh ! (?idx ! j) = ?sh ! j"
    using d b jl by (rule scatter_nth)
  moreover have "?idx ! j = snd (?pairs ! j)" using jl by simp
  moreover have "?sh ! j = nucleus_removes row top_p j"
  proof (cases j)
    case 0
    then show ?thesis by (simp add: nucleus_removes_def)
  next
    case (Suc k)
    with assms(3) la have k: "k < length (butlast ?above)" "k < length ?above" by simp_all
    then have "butlast ?above ! k = ?above ! k" by (simp add: nth_butlast)
    moreover have "?above ! k = (case cumulative_probs row of None \<Rightarrow> False
                                   | Some c \<Rightarrow> c ! k > top_p)"
      using k(2) la assms(3)
      by (auto simp add: cumulative_probs_def softmax_def cumsum_def split: option.splits if_splits)
    ultimately show ?thesis using Suc assms(2)
      by (simp add: nucleus_removes_def cong: option.case_cong)
  qed
  ultimately show ?thesis using rm by simp
qed


lemma row_after_top_k_length [simp]: "length (row_after_top_k row top_k fv) = length row"
  by (simp add: row_after_top_k_def)

lemma row_after_top_k_nth:
  "i < length row \<Longrightarrow>
   row_after_top_k row top_k fv ! i
     = (if 0 < top_k \<and> row ! i < kth_largest row (nat top_k) then fv else row ! i)"
  by (simp add: row_after_top_k_def)

lemma top_p_step_row:
  assumes "top_p_step s1 r top_p fv = Inr s'" and "j < length (s1 r)"
  shows "s' = s1(r := s' r) \<and> length (s' r) = length (s1 r)
       \<and> s' r ! snd (sort_descending (s1 r) ! j)
           = (if nucleus_removes (s1 r) top_p j then fv
              else s1 r ! snd (sort_descending (s1 r) ! j))"
proof (cases "top_p < 1")
  case False
  with assms(1) have "s' = s1" by (simp add: top_p_step_def)
  with False show ?thesis by (simp add: nucleus_removes_def)
next
  case True
  let ?row = "s1 r"
  from assms(1) True obtain remove where
    rm: "nucleus_mask ?row top_p = Inr remove" "s' = s1(r := masked_assign ?row remove fv)"
    by (auto simp: top_p_step_def split: sum.splits)
  from assms(2) have ne: "?row \<noteq> []" by auto
  from nucleus_mask_result [OF ne, of top_p] rm(1) have len: "length remove = length ?row"
    by auto
  from sort_descending_pair [OF assms(2)] have i: "snd (sort_descending ?row ! j) < length ?row"
    by simp
  from nucleus_mask_rank [OF rm(1) True assms(2)]
  have "remove ! snd (sort_descending ?row ! j) = nucleus_removes ?row top_p j" .
  with rm(2) len i show ?thesis by (simp add: masked_assign_nth)
qed



section \<open>Causality of the teacher-forced pass\<close>

lemma causal_mask_entry:
  assumes "i < n" and "j < n"
  shows "invert_mask (create_causal_mask n) ! i ! j = (i < j)"
  using assms by (auto simp add: invert_mask_def create_causal_mask_def)

lemma attn_softmax_masked:
  assumes "j < length scores" and "scores ! j = NegInf"
  shows "attn_softmax scores ! j = 0"
  using assms by (simp add: attn_softmax_def exp_logit_def)

lemma attn_scores_length [simp]: "length (attn_scores p msk xs h i) = length xs"
  by (simp add: attn_scores_def)

text \<open>Two inputs of one length that agree up to position \<open>i\<close>.\<close>

lemma attn_scores_agree:
  assumes "length xs = length ys" and "\<forall>j\<le>i. xs ! j = ys ! j" and "i < length xs"
  shows "attn_scores p (invert_mask (create_causal_mask (length xs))) xs h i
       = attn_scores p (invert_mask (create_causal_mask (length xs))) ys h i"
  unfolding attn_scores_def
proof (rule map_cong)
  show "[0..<length xs] = [0..<length ys]" using assms(1) by simp
next
  fix j
  assume "j \<in> set [0..<length ys]"
  then have j: "j < length xs" using assms(1) by simp
  show "(if invert_mask (create_causal_mask (length xs)) ! i ! j then NegInf
         else Fin (dot (query p xs h i) (key p xs h j) / sqrt (real (head_dim p))))
      = (if invert_mask (create_causal_mask (length xs)) ! i ! j then NegInf
         else Fin (dot (query p ys h i) (key p ys h j) / sqrt (real (head_dim p))))"
  proof (cases "i < j")
    case True
    with assms(3) j show ?thesis by (simp add: causal_mask_entry)
  next
    case False
    then have "xs ! j = ys ! j" "xs ! i = ys ! i" using assms(2) by simp_all
    then show ?thesis by (simp add: query_def key_def)
  qed
qed

lemma attn_head_agree:
  assumes "length xs = length ys" and "\<forall>j\<le>i. xs ! j = ys ! j" and "i < length xs"
  shows "attn_head p (invert_mask (create_causal_mask (length xs))) xs h i
       = attn_head p (invert_mask (create_causal_mask (length xs))) ys h i"
proof -
  let ?m = "invert_mask (create_causal_mask (length xs))"
  let ?w = "attn_softmax (attn_scores p ?m xs h i)"
  have sc: "attn_scores p ?m xs h i = attn_scores p ?m ys h i"
    using assms by (rule attn_scores_agree)
  have summand: "?w ! j * (val_proj p xs h j ! c) = ?w ! j * (val_proj p ys h j ! c)"
    if j: "j < length xs" for j c
  proof (cases "i < j")
    case True
    with assms(3) j have "attn_scores p ?m xs h i ! j = NegInf"
      by (simp add: attn_scores_def causal_mask_entry)
    with j have "?w ! j = 0" by (simp add: attn_softmax_masked)
    then show ?thesis by simp
  next
    case False
    then have "xs ! j = ys ! j" using assms(2) by simp
    then show ?thesis by (simp add: val_proj_def)
  qed
  have "map (\<lambda>j. ?w ! j * (val_proj p xs h j ! c)) [0..<length xs]
      = map (\<lambda>j. ?w ! j * (val_proj p ys h j ! c)) [0..<length ys]" for c
    using assms(1) summand by (intro map_cong) simp_all
  then show ?thesis
    unfolding attn_head_def Let_def sc [symmetric] by simp
qed

lemma mha_at_agree:
  assumes "length xs = length ys" and "\<forall>j\<le>i. xs ! j = ys ! j" and "i < length xs"
  shows "mha_at p (invert_mask (create_causal_mask (length xs))) xs i
       = mha_at p (invert_mask (create_causal_mask (length xs))) ys i"
  unfolding mha_at_def
  using attn_head_agree [OF assms] by simp


lemma transformer_block_length [simp]:
  "length (transformer_block b x condition msk) = length x"
  by (simp add: transformer_block_def multihead_attention_def Let_def)

lemma transformer_block_nth:
  assumes "j < length x"
  shows "transformer_block b x condition msk ! j =
     vadd (vadd (x ! j) (mha_at (attention b) msk (map (\<lambda>r. adaLN (adaLN1 b) r condition) x) j))
       (ffn b (adaLN (adaLN2 b)
          (vadd (x ! j) (mha_at (attention b) msk (map (\<lambda>r. adaLN (adaLN1 b) r condition) x) j))
          condition))"
  using assms by (simp add: transformer_block_def multihead_attention_def Let_def)

lemma transformer_block_agree:
  assumes "length xs = length ys" and "\<forall>j\<le>i. xs ! j = ys ! j" and "i < length xs"
  shows "\<forall>j\<le>i. transformer_block b xs condition (invert_mask (create_causal_mask (length xs))) ! j
             = transformer_block b ys condition (invert_mask (create_causal_mask (length xs))) ! j"
proof (intro allI impI)
  fix j
  assume ji: "j \<le> i"
  let ?m = "invert_mask (create_causal_mask (length xs))"
  let ?nx = "map (\<lambda>r. adaLN (adaLN1 b) r condition) xs"
  let ?ny = "map (\<lambda>r. adaLN (adaLN1 b) r condition) ys"
  from ji assms(3) have j: "j < length xs" by simp
  have l: "length ?nx = length ?ny" using assms(1) by simp
  have a: "\<forall>t\<le>j. ?nx ! t = ?ny ! t"
    using assms ji by simp
  have jn: "j < length ?nx" using j by simp
  from mha_at_agree [OF l a jn, of "attention b"]
  have "mha_at (attention b) ?m ?nx j = mha_at (attention b) ?m ?ny j" by simp
  moreover have "xs ! j = ys ! j" using assms(2) ji by simp
  ultimately show "transformer_block b xs condition ?m ! j = transformer_block b ys condition ?m ! j"
    using j assms(1) by (simp add: transformer_block_nth)
qed

lemma run_blocks_length [simp]: "length (run_blocks blocks x condition msk) = length x"
  unfolding run_blocks_def by (induction blocks arbitrary: x) simp_all

lemma run_blocks_agree:
  assumes "length xs = length ys" and "\<forall>j\<le>i. xs ! j = ys ! j" and "i < length xs"
    and "msk = invert_mask (create_causal_mask (length xs))"
  shows "\<forall>j\<le>i. run_blocks blocks xs condition msk ! j = run_blocks blocks ys condition msk ! j"
  using assms
proof (induction blocks arbitrary: xs ys)
  case Nil
  then show ?case by (simp add: run_blocks_def)
next
  case (Cons b blocks)
  let ?xs = "transformer_block b xs condition msk"
  let ?ys = "transformer_block b ys condition msk"
  have 1: "length ?xs = length ?ys" using Cons.prems(1) by simp
  have 2: "\<forall>j\<le>i. ?xs ! j = ?ys ! j"
    using transformer_block_agree [OF Cons.prems(1,2,3)] Cons.prems(4) by simp
  have 3: "i < length ?xs" using Cons.prems(3) by simp
  have 4: "msk = invert_mask (create_causal_mask (length ?xs))" using Cons.prems(4) by simp
  from Cons.IH [OF 1 2 3 4] show ?case by (simp add: run_blocks_def)
qed

lemma embedding_all_nth:
  assumes "embedding_all table ts = Inr rs"
  shows "length rs = length ts \<and> (\<forall>j<length ts. embedding table (ts ! j) = Inr (rs ! j))"
  using assms
proof (induction ts arbitrary: rs)
  case Nil
  then show ?case by simp
next
  case (Cons t ts)
  from Cons.prems obtain r rs' where
    r: "embedding table t = Inr r" "embedding_all table ts = Inr rs'" "rs = r # rs'"
    by (auto split: sum.splits)
  from Cons.IH [OF r(2)] r(1,3) show ?case
    by (auto simp: nth_Cons split: nat.splits)
qed

lemma add_positions_nth:
  assumes "add_positions x pos = Inr y"
  shows "length y = length x
       \<and> (\<forall>j<length x. y ! j = vadd (x ! j) (if length (take (length x) pos) = length x
                                               then pos ! j else pos ! 0))"
  using assms
  by (auto simp add: add_positions_def Let_def split: if_splits)


lemma embedding_all_succeeds:
  assumes "\<forall>t \<in> set ts. 0 \<le> t \<and> t < int (length table)"
  shows "\<exists>rs. embedding_all table ts = Inr rs"
  using assms by (induction ts) (auto simp add: embedding_def)

lemma forward_succeeds:
  assumes "\<forall>t \<in> set tokens. 0 \<le> t \<and> t < int (length (token_embedding m))"
    and "length tokens \<le> length (pos_embedding m)"
  shows "\<exists>lg. forward m tokens None = Inr lg \<and> length lg = length tokens"
proof -
  from embedding_all_succeeds [OF assms(1)] obtain x0 where
    x0: "embedding_all (token_embedding m) tokens = Inr x0" by blast
  then have l0: "length x0 = length tokens" using embedding_all_nth by blast
  with assms(2) have "add_positions x0 (pos_embedding m) = Inr (map2 vadd x0 (take (length x0) (pos_embedding m)))"
    by (simp add: add_positions_def Let_def)
  with x0 l0 assms(2) show ?thesis
    by (simp add: forward_def make_condition_def Let_def)
qed

text \<open>
  C1.  Teacher-forced logits are causal.  For two token sequences of one length that
  agree on positions \<open>0..i\<close>, and the same class label, the logits that
  \<open>forward\<close> returns (the modules in evaluation mode, so that dropout is inactive)
  agree on every position \<open>0..i\<close>, whatever the tokens after position \<open>i\<close> are.
\<close>

theorem causal_prefix_invariance:
  assumes "length tokens1 = length tokens2"
    and "\<forall>j\<le>i. tokens1 ! j = tokens2 ! j"
    and "i < length tokens1"
    and "forward m tokens1 class_labels = Inr logits1"
    and "forward m tokens2 class_labels = Inr logits2"
  shows "\<forall>j\<le>i. logits1 ! j = logits2 ! j"
proof -
  let ?msk = "invert_mask (create_causal_mask (length tokens1))"
  from assms(4) obtain a0 a condition where
    a0: "embedding_all (token_embedding m) tokens1 = Inr a0"
    and a: "add_positions a0 (pos_embedding m) = Inr a"
    and c: "make_condition m class_labels = Inr condition"
    and l1: "logits1 = map (linear (to_logits m))
               (run_blocks (transformer_blocks m) a condition ?msk)"
    by (auto simp add: forward_def Let_def split: sum.splits)
  from assms(5) c assms(1) obtain b0 b where
    b0: "embedding_all (token_embedding m) tokens2 = Inr b0"
    and b: "add_positions b0 (pos_embedding m) = Inr b"
    and l2: "logits2 = map (linear (to_logits m))
               (run_blocks (transformer_blocks m) b condition ?msk)"
    by (auto simp add: forward_def Let_def split: sum.splits)
  note ea = embedding_all_nth [OF a0] and eb = embedding_all_nth [OF b0]
  note pa = add_positions_nth [OF a] and pb = add_positions_nth [OF b]
  have len0: "length a0 = length b0" using ea eb assms(1) by simp
  have la: "length a = length tokens1" using ea pa by simp
  have lb: "length b = length tokens1" using eb pb assms(1) by simp
  have rows0: "\<forall>j\<le>i. a0 ! j = b0 ! j"
  proof (intro allI impI)
    fix j assume ji: "j \<le> i"
    with assms(3) have j: "j < length tokens1" by simp
    with ea have "embedding (token_embedding m) (tokens1 ! j) = Inr (a0 ! j)" by blast
    moreover from j eb assms(1) have "embedding (token_embedding m) (tokens2 ! j) = Inr (b0 ! j)"
      by simp
    moreover from assms(2) ji have "tokens1 ! j = tokens2 ! j" by simp
    ultimately show "a0 ! j = b0 ! j" by simp
  qed
  have rows: "\<forall>j\<le>i. a ! j = b ! j"
  proof (intro allI impI)
    fix j assume ji: "j \<le> i"
    with assms(3) ea have j: "j < length a0" by simp
    with pa have "a ! j = vadd (a0 ! j) (if length (take (length a0) (pos_embedding m)) = length a0
                                          then pos_embedding m ! j else pos_embedding m ! 0)"
      by blast
    moreover from j len0 pb
    have "b ! j = vadd (b0 ! j) (if length (take (length b0) (pos_embedding m)) = length b0
                                   then pos_embedding m ! j else pos_embedding m ! 0)"
      by simp
    moreover from rows0 ji have "a0 ! j = b0 ! j" by simp
    ultimately show "a ! j = b ! j" using len0 by simp
  qed
  have lab: "length a = length b" using la lb by simp
  have ia: "i < length a" using la assms(3) by simp
  have mk: "?msk = invert_mask (create_causal_mask (length a))" using la by simp
  note out = run_blocks_agree [OF lab rows ia mk, of "transformer_blocks m" condition]
  show ?thesis
  proof (intro allI impI)
    fix j assume ji: "j \<le> i"
    with ia have "j < length a" by simp
    moreover from this lab have "j < length b" by simp
    ultimately show "logits1 ! j = logits2 ! j"
      using out ji by (simp add: l1 l2)
  qed
qed


theorem causal_prefix_invariance_witness:
  "length [0, 1::int] = length [0, 0::int]
   \<and> (\<exists>l1 l2. forward example_model [0, 1] None = Inr l1
         \<and> forward example_model [0, 0] None = Inr l2
         \<and> length l1 = 2 \<and> length l2 = 2 \<and> l1 ! 0 = l2 ! 0)"
proof -
  have v1: "\<forall>t \<in> set [0, 1::int]. 0 \<le> t \<and> t < int (length (token_embedding example_model))"
    by (simp add: example_model_def)
  have v2: "\<forall>t \<in> set [0, 0::int]. 0 \<le> t \<and> t < int (length (token_embedding example_model))"
    by (simp add: example_model_def)
  have p1: "length [0, 1::int] \<le> length (pos_embedding example_model)"
    by (simp add: example_model_def)
  have p2: "length [0, 0::int] \<le> length (pos_embedding example_model)"
    by (simp add: example_model_def)
  from forward_succeeds [OF v1 p1] obtain l1 where
    l1: "forward example_model [0, 1] None = Inr l1" "length l1 = 2" by auto
  from forward_succeeds [OF v2 p2] obtain l2 where
    l2: "forward example_model [0, 0] None = Inr l2" "length l2 = 2" by auto
  have h1: "length [0, 1::int] = length [0, 0::int]" by simp
  have h2: "\<forall>j\<le>0. [0, 1::int] ! j = [0, 0::int] ! j" by simp
  have h3: "0 < length [0, 1::int]" by simp
  from causal_prefix_invariance [OF h1 h2 h3 l1(1) l2(1)] have "l1 ! 0 = l2 ! 0" by simp
  with l1 l2 show ?thesis by auto
qed

text \<open>
  C9.  \<open>forward\<close> never reads the scale-embedding table: replacing the table by any
  other leaves the result, logits or error, unchanged.  No two values of the
  scale-embedding parameters give different logits.
\<close>

theorem forward_ignores_scale_embedding:
  "forward (m\<lparr>scale_embedding := table1\<rparr>) tokens class_labels
     = forward (m\<lparr>scale_embedding := table2\<rparr>) tokens class_labels"
  by (simp add: forward_def make_condition_def Let_def cong: sum.case_cong option.case_cong)

section \<open>Generation and the temperature\<close>

lemma linear_length:
  "length (linear p x) = min (length (lin_weight p)) (length (lin_bias p))"
  by (simp add: linear_def)

lemma next_logits_succeeds:
  assumes "\<forall>t \<in> set generated. 0 \<le> t \<and> t < int (length (token_embedding m))"
    and "length generated \<le> length (pos_embedding m)"
  shows "\<exists>lg. next_logits m condition generated = Inr lg
           \<and> length lg = min (length (lin_weight (to_logits m))) (length (lin_bias (to_logits m)))"
proof (cases "generated = []")
  case True
  then show ?thesis by (simp add: next_logits_def linear_length)
next
  case False
  from embedding_all_succeeds [OF assms(1)] obtain x0 where
    x0: "embedding_all (token_embedding m) generated = Inr x0" by blast
  then have l0: "length x0 = length generated" using embedding_all_nth by blast
  with assms(2) have "add_positions x0 (pos_embedding m)
      = Inr (map2 vadd x0 (take (length x0) (pos_embedding m)))"
    by (simp add: add_positions_def Let_def)
  with x0 False show ?thesis
    by (simp add: next_logits_def Let_def linear_length)
qed

lemma cumsum_from_last:
  "ps \<noteq> [] \<Longrightarrow> last (cumsum_from a ps) = a + sum_list ps"
proof (induction ps arbitrary: a)
  case Nil
  then show ?case by simp
next
  case (Cons p ps)
  then show ?case by (cases ps) simp_all
qed

lemma member_le_sum_list_real:
  fixes xs :: "real list"
  assumes "\<forall>x \<in> set xs. 0 \<le> x" and "x \<in> set xs"
  shows "x \<le> sum_list xs"
  using assms
proof (induction xs)
  case Nil
  then show ?case by simp
next
  case (Cons y ys)
  have nn: "0 \<le> sum_list ys" using Cons.prems(1) by (simp add: sum_list_nonneg)
  show ?case
  proof (cases "x = y")
    case True
    with nn show ?thesis by simp
  next
    case False
    with Cons have "x \<le> sum_list ys" by simp
    moreover have "0 \<le> y" using Cons.prems(1) by simp
    ultimately show ?thesis by simp
  qed
qed

lemma exp_logit_nonneg: "0 \<le> exp_logit x"
  by (cases x) (simp_all add: exp_logit_def)

text \<open>A row with a finite entry has a softmax, and the draw from it succeeds.\<close>

lemma multinomial_softmax_succeeds:
  assumes "i < length row" and "row ! i = Fin a" and "0 \<le> u" and "u < 1"
  shows "\<exists>t. multinomial (softmax row) u = Inr t \<and> 0 \<le> t \<and> t < int (length row)"
proof -
  let ?Z = "sum_list (map exp_logit row)"
  let ?ps = "map (\<lambda>x. exp_logit x / ?Z) row"
  from assms(1,2) have "Fin a \<in> set row" by (metis nth_mem)
  then have notall: "\<not> (\<forall>x \<in> set row. x = NegInf)" by auto
  then have sm: "softmax row = Some ?ps" by (simp add: softmax_def)
  have "exp a \<in> set (map exp_logit row)"
    using \<open>Fin a \<in> set row\<close> by (force simp: exp_logit_def)
  then have "exp a \<le> ?Z"
    by (intro member_le_sum_list_real) (auto simp: exp_logit_nonneg)
  then have Z: "0 < ?Z" using exp_gt_zero [of a] by linarith
  have nn: "\<forall>p \<in> set ?ps. 0 \<le> p" using Z by (auto simp: exp_logit_nonneg)
  have "exp a / ?Z \<in> set ?ps"
    using \<open>Fin a \<in> set row\<close> by (force simp: exp_logit_def)
  with nn have "exp a / ?Z \<le> sum_list ?ps" by (intro member_le_sum_list_real) auto
  moreover have "0 < exp a / ?Z" using Z by simp
  ultimately have S: "0 < sum_list ?ps" by linarith
  let ?tw = "takeWhile (\<lambda>c. c \<le> u * sum_list ?ps) (cumsum ?ps)"
  have rne: "row \<noteq> []" using assms(1) by auto
  then have "0 < length (cumsum ?ps)" by (simp add: cumsum_def)
  then have ne: "cumsum ?ps \<noteq> []" by blast
  have "?ps \<noteq> []" using rne by simp
  then have lastc: "last (cumsum ?ps) = sum_list ?ps"
    by (simp add: cumsum_def cumsum_from_last)
  have "u * sum_list ?ps < sum_list ?ps" using assms(4) S by simp
  then have "\<not> last (cumsum ?ps) \<le> u * sum_list ?ps" using lastc by simp
  moreover have "last (cumsum ?ps) \<in> set (cumsum ?ps)" using ne by simp
  ultimately have "?tw \<noteq> cumsum ?ps" by (metis takeWhile_eq_all_conv)
  moreover have "length ?tw \<le> length (cumsum ?ps)" by (rule length_takeWhile_le)
  ultimately have "length ?tw < length (cumsum ?ps)"
    by (metis le_neq_implies_less takeWhile_eq_take take_all_iff order_refl)
  then have lt: "length ?tw < length row" by (simp add: cumsum_def)
  have "multinomial (softmax row) u = Inr (int (length ?tw))"
    using sm nn S by (auto simp add: multinomial_def)
  with lt show ?thesis by simp
qed

lemma filtering_entries:
  assumes "top_k_top_p_filtering s r top_k top_p fv = Inr (s', r')"
  shows "r' = r \<and> length (s' r) = length (s r)
       \<and> (\<forall>i<length (s r). s' r ! i = s r ! i \<or> s' r ! i = fv)"
proof -
  from assms obtain s1 where
    1: "top_k_step s r top_k fv = Inr s1" and 2: "top_p_step s1 r top_p fv = Inr s'"
    and r: "r' = r"
    by (auto simp: top_k_top_p_filtering_def split: sum.splits)
  from top_k_step_frame [OF 1] obtain row1 where
    a: "s1 = s(r := row1)" "length row1 = length (s r)"
       "\<forall>i<length (s r). row1 ! i = s r ! i \<or> row1 ! i = fv" by blast
  from top_p_step_frame [OF 2] obtain row2 where
    b: "s' = s1(r := row2)" "length row2 = length (s1 r)"
       "\<forall>i<length (s1 r). row2 ! i = s1 r ! i \<or> row2 ! i = fv" by blast
  from a b have l: "length row2 = length (s r)" by simp
  have "row2 ! i = s r ! i \<or> row2 ! i = fv" if "i < length (s r)" for i
  proof -
    from that a(1,2) b(3) have "row2 ! i = row1 ! i \<or> row2 ! i = fv" by simp
    with that a(3) show ?thesis by metis
  qed
  with a(1) b(1) l r show ?thesis by simp
qed

text \<open>A row all of whose quotients are finite is sampled from.\<close>

lemma sample_token_succeeds:
  assumes "logits \<noteq> []"
    and "\<forall>x \<in> set logits. \<exists>y. float32_div x temperature = Logit (Fin y)"
    and "top_k \<le> int (length logits)"
    and "0 \<le> u" and "u < 1"
  shows "\<exists>t. sample_token logits temperature top_k top_p u = Inr t
           \<and> 0 \<le> t \<and> t < int (length logits)"
proof -
  let ?scaled = "map (\<lambda>x. float32_div x temperature) logits"
  let ?row = "map the_logit ?scaled"
  let ?s = "\<lambda>_::nat. ?row"
  from assms(2) have no: "\<not> (NaN \<in> set ?scaled \<or> PosInf \<in> set ?scaled)" by force
  have allfin: "\<exists>y. ?row ! j = Fin y" if "j < length logits" for j
  proof -
    from that have "logits ! j \<in> set logits" by simp
    with assms(2) obtain y where "float32_div (logits ! j) temperature = Logit (Fin y)" by blast
    with that show ?thesis by simp
  qed
  have ne: "?s 0 \<noteq> []" using assms(1) by simp
  have k: "top_k \<le> int (length (?s 0))" using assms(3) by simp
  from filtering_result [where s = "?s" and r = 0 and top_k = top_k and top_p = top_p, OF ne k]
  obtain row2 i where
    r: "top_k_top_p_filtering ?s 0 top_k top_p NegInf = Inr (?s(0 := row2), 0)"
       "length row2 = length ?row" "i < length ?row" "row2 ! i = ?row ! i"
    by auto
  from r(3) have "i < length logits" by simp
  from allfin [OF this] r(4) obtain y where fin: "row2 ! i = Fin y" by auto
  from r(2,3) have i: "i < length row2" by simp
  from multinomial_softmax_succeeds [OF i fin assms(4,5)] obtain t where
    t: "multinomial (softmax row2) u = Inr t" "0 \<le> t" "t < int (length row2)" by blast
  from no r(1) t(1) have "sample_token logits temperature top_k top_p u = Inr t"
    by (simp add: sample_token_def Let_def)
  with t(2,3) r(2) show ?thesis by simp
qed

text \<open>
  With a temperature that is zero as a float every quotient is NaN or an infinity, and the
  step fails.
\<close>

lemma sample_token_zero_temperature:
  assumes "float32_round temperature = 0"
  shows "\<exists>e. sample_token logits temperature top_k top_p u = Inl e"
proof -
  let ?scaled = "map (\<lambda>x. float32_div x temperature) logits"
  let ?row = "map the_logit ?scaled"
  show ?thesis
  proof (cases "NaN \<in> set ?scaled \<or> PosInf \<in> set ?scaled")
    case True
    then show ?thesis by (simp add: sample_token_def Let_def split: sum.split)
  next
    case False
    have q: "float32_div x temperature = Logit NegInf" if "x \<in> set logits" for x
    proof -
      from that have "float32_div x temperature \<in> set ?scaled" by simp
      with False have "float32_div x temperature \<noteq> NaN" "float32_div x temperature \<noteq> PosInf"
        by metis+
      with assms show ?thesis by (simp add: float32_div_def Let_def split: if_splits)
    qed
    then have row: "\<forall>j<length ?row. ?row ! j = NegInf" by simp
    show ?thesis
    proof (cases "top_k_top_p_filtering (\<lambda>_. ?row) 0 top_k top_p NegInf")
      case (Inl e)
      with False show ?thesis by (simp add: sample_token_def Let_def)
    next
      case (Inr p)
      obtain s' r' where p: "p = (s', r')" by (cases p)
      from filtering_entries [OF Inr [unfolded p]] row
      have r': "r' = 0" and "length (s' 0) = length ?row"
        and "\<forall>i<length ?row. s' 0 ! i = NegInf" by auto
      then have "\<forall>x \<in> set (s' 0). x = NegInf" by (metis in_set_conv_nth)
      then have "softmax (s' r') = None" by (simp add: softmax_def r')
      with False Inr p show ?thesis by (simp add: sample_token_def Let_def multinomial_def)
    qed
  qed
qed

lemma generate_tokens_succeeds:
  assumes "length (lin_weight (to_logits m)) = length (token_embedding m)"
    and "length (lin_bias (to_logits m)) = length (token_embedding m)"
    and "token_embedding m \<noteq> []"
    and "top_k \<le> int (length (token_embedding m))"
    and "\<forall>n. 0 \<le> us n \<and> us n < 1"
    and "\<forall>g lg. length g < L \<longrightarrow> next_logits m condition g = Inr lg
           \<longrightarrow> (\<forall>x \<in> set lg. \<exists>y. float32_div x temperature = Logit (Fin y))"
    and "L \<le> length (pos_embedding m)"
    and "\<forall>t \<in> set generated. 0 \<le> t \<and> t < int (length (token_embedding m))"
    and "length generated + n \<le> L"
  shows "\<exists>toks. generate_tokens m condition temperature top_k top_p us n generated = Inr toks
           \<and> length toks = length generated + n
           \<and> (\<forall>t \<in> set toks. 0 \<le> t \<and> t < int (length (token_embedding m)))"
  using assms(8,9)
proof (induction n arbitrary: generated)
  case 0
  then show ?case by simp
next
  case (Suc n)
  from Suc.prems(2) assms(7) have le: "length generated \<le> length (pos_embedding m)" by simp
  from Suc.prems(2) have lt: "length generated < L" by simp
  from next_logits_succeeds [OF Suc.prems(1) le, of condition] assms(1,2) obtain lg where
    lg: "next_logits m condition generated = Inr lg" "length lg = length (token_embedding m)"
    by auto
  from lg(2) assms(3) have ne: "lg \<noteq> []" by auto
  from assms(6) lt lg(1)
  have fin: "\<forall>x \<in> set lg. \<exists>y. float32_div x temperature = Logit (Fin y)" by blast
  from assms(4) lg(2) have k: "top_k \<le> int (length lg)" by simp
  from assms(5) have u: "0 \<le> us (length generated)" "us (length generated) < 1" by simp_all
  from sample_token_succeeds [OF ne fin k u, of top_p] lg(2) obtain t where
    t: "sample_token lg temperature top_k top_p (us (length generated)) = Inr t"
       "0 \<le> t" "t < int (length (token_embedding m))"
    by auto
  have v: "\<forall>x \<in> set (generated @ [t]). 0 \<le> x \<and> x < int (length (token_embedding m))"
    using Suc.prems(1) t(2,3) by simp
  have l: "length (generated @ [t]) + n \<le> L"
    using Suc.prems(2) by simp
  from Suc.IH [OF v l] lg(1) t(1) show ?case by simp
qed

lemma generate_scales_succeeds:
  assumes "length (lin_weight (to_logits m)) = length (token_embedding m)"
    and "length (lin_bias (to_logits m)) = length (token_embedding m)"
    and "token_embedding m \<noteq> []"
    and "top_k \<le> int (length (token_embedding m))"
    and "\<forall>n. 0 \<le> us n \<and> us n < 1"
    and "\<forall>g lg. length g < L \<longrightarrow> next_logits m condition g = Inr lg
           \<longrightarrow> (\<forall>x \<in> set lg. \<exists>y. float32_div x temperature = Logit (Fin y))"
    and "L \<le> length (pos_embedding m)"
    and "\<forall>t \<in> set generated. 0 \<le> t \<and> t < int (length (token_embedding m))"
    and "int (length generated) + total_seq_len_of scs \<le> int L"
  shows "\<exists>toks. generate_scales m condition temperature top_k top_p us scs generated = Inr toks
           \<and> int (length toks) = int (length generated) + total_seq_len_of scs
           \<and> (\<forall>t \<in> set toks. 0 \<le> t \<and> t < int (length (token_embedding m)))"
  using assms(8,9)
proof (induction scs arbitrary: generated)
  case Nil
  then show ?case by (simp add: total_seq_len_of_def)
next
  case (Cons scale scs)
  have tot: "total_seq_len_of (scale # scs) = scale * scale + total_seq_len_of scs"
    by (simp add: total_seq_len_of_def)
  have nn: "0 \<le> total_seq_len_of scs" by (rule total_seq_len_of_nonneg)
  have sq: "int (nat (scale * scale)) = scale * scale" by simp
  from Cons.prems(2) tot nn sq
  have "int (length generated + nat (scale * scale)) \<le> int L"
    by simp
  then have l: "length generated + nat (scale * scale) \<le> L"
    by linarith
  from generate_tokens_succeeds [OF assms(1-7) Cons.prems(1) l]
  obtain g where
    g: "generate_tokens m condition temperature top_k top_p us (nat (scale * scale)) generated = Inr g"
       "length g = length generated + nat (scale * scale)"
       "\<forall>t \<in> set g. 0 \<le> t \<and> t < int (length (token_embedding m))"
    by blast
  from g(2) sq have lg: "int (length g) = int (length generated) + scale * scale" by simp
  with Cons.prems(2) tot
  have l2: "int (length g) + total_seq_len_of scs \<le> int L" by simp
  from Cons.IH [OF g(3) l2] obtain toks where
    toks: "generate_scales m condition temperature top_k top_p us scs g = Inr toks"
      "int (length toks) = int (length g) + total_seq_len_of scs"
      "\<forall>t \<in> set toks. 0 \<le> t \<and> t < int (length (token_embedding m))"
    by blast
  from toks(2) lg tot
  have "int (length toks) = int (length generated) + total_seq_len_of (scale # scs)" by simp
  with toks(1,3) g(1) show ?case by (simp add: Let_def)
qed

lemma generate_tokens_zero_temperature:
  assumes "float32_round temperature = 0"
  shows "\<exists>e. generate_tokens m condition temperature top_k top_p us (Suc n) generated = Inl e"
proof (cases "next_logits m condition generated")
  case (Inl e)
  then show ?thesis by simp
next
  case (Inr lg)
  from sample_token_zero_temperature [OF assms, of lg top_k top_p "us (length generated)"]
  obtain e where "sample_token lg temperature top_k top_p (us (length generated)) = Inl e"
    by blast
  with Inr show ?thesis by simp
qed

lemma generate_scales_zero_temperature:
  assumes "float32_round temperature = 0" and "\<exists>s \<in> set scs. s \<noteq> 0"
  shows "\<exists>e. generate_scales m condition temperature top_k top_p us scs generated = Inl e"
  using assms(2)
proof (induction scs arbitrary: generated)
  case Nil
  then show ?case by simp
next
  case (Cons scale scs)
  show ?case
  proof (cases "scale = 0")
    case True
    with Cons.prems have "\<exists>s \<in> set scs. s \<noteq> 0" by simp
    from Cons.IH [OF this] True show ?thesis by simp
  next
    case False
    then have "0 < scale * scale" by (auto simp add: zero_less_mult_iff)
    then obtain k where k: "nat (scale * scale) = Suc k"
      by (metis Suc_pred' zero_less_nat_eq)
    from generate_tokens_zero_temperature [OF assms(1), of m condition top_k top_p us k generated]
    obtain e where
      "generate_tokens m condition temperature top_k top_p us (Suc k) generated = Inl e"
      by blast
    with k show ?thesis by (simp add: Let_def)
  qed
qed

text \<open>A schedule that asks for no token draws none, whatever the temperature.\<close>

lemma generate_scales_empty:
  assumes "\<forall>s \<in> set scs. s = 0"
  shows "generate_scales m condition temperature top_k top_p us scs generated = Inr generated"
  using assms by (induction scs) simp_all

text \<open>With no filter and the draw \<open>u = 0\<close> the first index is drawn from a finite row.\<close>

lemma multinomial_first:
  assumes "row = Fin a # rest"
  shows "multinomial (softmax row) 0 = Inr 0"
proof -
  let ?Z = "sum_list (map exp_logit row)"
  let ?ps = "map (\<lambda>x. exp_logit x / ?Z) row"
  have sm: "softmax row = Some ?ps" by (simp add: softmax_def assms)
  have "exp a \<in> set (map exp_logit row)" by (simp add: assms exp_logit_def)
  then have "exp a \<le> ?Z"
    by (intro member_le_sum_list_real) (auto simp: exp_logit_nonneg)
  then have Z: "0 < ?Z" using exp_gt_zero [of a] by linarith
  have nn: "\<forall>p \<in> set ?ps. 0 \<le> p" using Z by (auto simp: exp_logit_nonneg)
  have p0: "0 < exp a / ?Z" using Z by simp
  have "exp a / ?Z \<in> set ?ps" by (simp add: assms exp_logit_def)
  with nn have "exp a / ?Z \<le> sum_list ?ps"
    by (intro member_le_sum_list_real) auto
  with p0 have S: "0 < sum_list ?ps" by linarith
  have hd: "cumsum ?ps = (exp a / ?Z) # cumsum_from (exp a / ?Z) (tl ?ps)"
    by (simp add: cumsum_def assms exp_logit_def)
  have "takeWhile (\<lambda>c. c \<le> 0 * sum_list ?ps) (cumsum ?ps) = []"
    using p0 by (subst hd) simp
  then have "multinomial (Some ?ps) 0 = Inr 0"
    using nn S by (auto simp add: multinomial_def)
  with sm show ?thesis by simp
qed

lemma sample_token_first:
  assumes "logits \<noteq> []"
    and "\<forall>x \<in> set logits. \<exists>y. float32_div x temperature = Logit (Fin y)"
  shows "sample_token logits temperature 0 1 0 = Inr 0"
proof -
  obtain x xs where l: "logits = x # xs" using assms(1) by (cases logits) auto
  let ?scaled = "map (\<lambda>x. float32_div x temperature) logits"
  let ?row = "map the_logit ?scaled"
  from assms(2) have no: "\<not> (NaN \<in> set ?scaled \<or> PosInf \<in> set ?scaled)" by force
  from assms(2) l obtain y where "float32_div x temperature = Logit (Fin y)" by auto
  then have row: "?row = Fin y # map the_logit (map (\<lambda>x. float32_div x temperature) xs)"
    by (simp add: l)
  have f: "top_k_top_p_filtering (\<lambda>_. ?row) 0 0 1 NegInf = Inr (\<lambda>_. ?row, 0)"
    by (simp add: top_k_top_p_filtering_def top_k_step_def top_p_step_def)
  from multinomial_first [OF row] no f show ?thesis
    by (simp add: sample_token_def Let_def)
qed

lemma generate_tokens_first:
  assumes "length (lin_weight (to_logits m)) = length (token_embedding m)"
    and "length (lin_bias (to_logits m)) = length (token_embedding m)"
    and "token_embedding m \<noteq> []"
    and "\<forall>g lg. next_logits m condition g = Inr lg
           \<longrightarrow> (\<forall>x \<in> set lg. \<exists>y. float32_div x temperature = Logit (Fin y))"
    and "\<forall>t \<in> set generated. 0 \<le> t \<and> t < int (length (token_embedding m))"
    and "length generated + n \<le> length (pos_embedding m)"
  shows "generate_tokens m condition temperature 0 1 (\<lambda>_. 0) n generated
           = Inr (generated @ replicate n 0)"
  using assms(5,6)
proof (induction n arbitrary: generated)
  case 0
  then show ?case by simp
next
  case (Suc n)
  from Suc.prems(2) have le: "length generated \<le> length (pos_embedding m)" by simp
  from next_logits_succeeds [OF Suc.prems(1) le, of condition] assms(1,2) obtain lg where
    lg: "next_logits m condition generated = Inr lg" "length lg = length (token_embedding m)"
    by auto
  from lg(2) assms(3) have ne: "lg \<noteq> []" by auto
  from assms(4) lg(1)
  have fin: "\<forall>x \<in> set lg. \<exists>y. float32_div x temperature = Logit (Fin y)" by blast
  note t = sample_token_first [OF ne fin]
  have v: "\<forall>x \<in> set (generated @ [0]). 0 \<le> x \<and> x < int (length (token_embedding m))"
    using Suc.prems(1) assms(3) by simp
  have l: "length (generated @ [0]) + n \<le> length (pos_embedding m)"
    using Suc.prems(2) by simp
  from Suc.IH [OF v l] lg(1) t show ?case by (simp add: replicate_app_Cons_same)
qed

subsection \<open>The model without blocks\<close>

lemma f32_neg_1: "float32_round (- 1) = - 1"
  by (rule float32_round_exact [where e = 0 and m = "- 8388608" and ulp = "1 / 8388608"])
    (simp_all add: powr_minus inverse_eq_divide)

lemma float32_div_neg_1:
  "float32_div 0 (- 1) = Logit (Fin 0)" "float32_div 1 (- 1) = Logit (Fin (- 1))"
  by (simp_all add: float32_div_def f32_neg_1 float32_zero)

lemma zero_layer_logits:
  assumes "next_logits zero_layer_model [a, b] generated = Inr logits"
  shows "logits = [a, b] \<or> logits = [1, 0] \<or> logits = [0, 1]"
proof (cases "generated = []")
  case True
  with assms show ?thesis
    by (simp add: next_logits_def zero_layer_model_def linear_def dot_def)
next
  case False
  let ?E = "token_embedding zero_layer_model"
  let ?P = "pos_embedding zero_layer_model"
  from assms False obtain x0 x where
    x0: "embedding_all ?E generated = Inr x0" and x: "add_positions x0 ?P = Inr x"
    and lg: "logits = linear (to_logits zero_layer_model) (last x)"
    by (auto simp add: next_logits_def Let_def run_blocks_def zero_layer_model_def
        split: sum.splits)
  let ?j = "length generated - 1"
  from False have j: "?j < length generated" by (cases generated) auto
  from embedding_all_nth [OF x0] j have l0: "length x0 = length generated"
    and e: "embedding ?E (generated ! ?j) = Inr (x0 ! ?j)" by auto
  from e have r0: "x0 ! ?j = [1, 0] \<or> x0 ! ?j = [0, 1]"
  proof -
    from e have b: "0 \<le> generated ! ?j" "generated ! ?j < 2"
      and v: "x0 ! ?j = ?E ! nat (generated ! ?j)"
      by (auto simp add: embedding_def zero_layer_model_def split: if_splits)
    from b have "generated ! ?j = 0 \<or> generated ! ?j = 1" by linarith
    with v show ?thesis by (auto simp add: zero_layer_model_def)
  qed
  from add_positions_nth [OF x] j l0 have lx: "length x = length generated"
    and xj: "x ! ?j = vadd (x0 ! ?j) (if length (take (length x0) ?P) = length x0
                                       then ?P ! ?j else ?P ! 0)" by auto
  have pz: "(if length (take (length x0) ?P) = length x0 then ?P ! ?j else ?P ! 0) = [0, 0]"
  proof (cases "length (take (length x0) ?P) = length x0")
    case True
    then have "length x0 \<le> length ?P" by simp
    with j l0 have "?j < length ?P" by simp
    then have "?P ! ?j \<in> set ?P" by (rule nth_mem)
    with True show ?thesis by (simp add: zero_layer_model_def)
  next
    case False
    then show ?thesis by (simp add: zero_layer_model_def)
  qed
  from lx False have "x \<noteq> []" by auto
  then have "last x = x ! ?j" using lx by (simp add: last_conv_nth)
  with xj pz r0 have "last x = [1, 0] \<or> last x = [0, 1]" by (auto simp add: vadd_def)
  with lg show ?thesis by (auto simp add: zero_layer_model_def linear_def dot_def)
qed

lemma zero_layer_finite:
  assumes "next_logits zero_layer_model [a, b] generated = Inr logits"
    and "a = 0 \<or> a = 1" and "b = 0 \<or> b = 1"
  shows "\<forall>x \<in> set logits. \<exists>y. float32_div x (- 1) = Logit (Fin y)"
proof -
  from zero_layer_logits [OF assms(1)] assms(2,3) have "set logits \<subseteq> {0, 1}" by auto
  then show ?thesis using float32_div_neg_1 by auto
qed

lemma zero_layer_shape:
  "length (lin_weight (to_logits zero_layer_model)) = length (token_embedding zero_layer_model)"
  "length (lin_bias (to_logits zero_layer_model)) = length (token_embedding zero_layer_model)"
  "token_embedding zero_layer_model \<noteq> []"
  "scales zero_layer_model = [1, 2]"
  "length (token_embedding zero_layer_model) = 2"
  "length (pos_embedding zero_layer_model) = 5"
  by (simp_all add: zero_layer_model_def get_multi_scale_patches_def upto_rec1)

text \<open>
  C8 (as stated, refuted).  With temperature \<open>-1\<close> generation on the model without
  blocks does not fail.  Its logits are 0 or 1 and their quotients by \<open>-1\<close> are exact in
  32-bit floats; with both filters disabled and every draw \<open>u = 0\<close> it divides the
  logits by \<open>-1\<close> at each of the five steps and returns five tokens.
\<close>

theorem negative_temperature_accepted:
  "generate zero_layer_model None (- 1) 0 1 (\<lambda>_. 0) = Inr [0, 0, 0, 0, 0]"
proof -
  let ?m = zero_layer_model
  let ?c = "[0, 0] :: real list"
  have c: "make_condition ?m None = Inr ?c"
    by (simp add: make_condition_def zero_layer_model_def numeral_2_eq_2)
  have fin: "\<forall>g lg. next_logits ?m ?c g = Inr lg
           \<longrightarrow> (\<forall>x \<in> set lg. \<exists>y. float32_div x (- 1) = Logit (Fin y))"
    using zero_layer_finite [of 0 0] by blast
  have v0: "\<forall>t \<in> set ([]::int list). 0 \<le> t \<and> t < int (length (token_embedding ?m))"
    by simp
  have l0: "length ([]::int list) + 1 \<le> length (pos_embedding ?m)"
    by (simp add: zero_layer_shape)
  have v1: "\<forall>t \<in> set [0::int]. 0 \<le> t \<and> t < int (length (token_embedding ?m))"
    by (simp add: zero_layer_shape)
  have l1: "length [0::int] + 4 \<le> length (pos_embedding ?m)"
    by (simp add: zero_layer_shape)
  have s1: "generate_tokens ?m ?c (- 1) 0 1 (\<lambda>_. 0) 1 [] = Inr [0]"
    using generate_tokens_first [OF zero_layer_shape(1-3) fin v0 l0] by simp
  have s2: "generate_tokens ?m ?c (- 1) 0 1 (\<lambda>_. 0) 4 [0] = Inr [0, 0, 0, 0, 0]"
    using generate_tokens_first [OF zero_layer_shape(1-3) fin v1 l1] by (simp add: numeral_eq_Suc)
  show ?thesis
    using s1 s2 by (simp add: generate_def c zero_layer_shape(4))
qed

text \<open>
  C8 (amended).  \<open>generate\<close> does not check \<open>temperature\<close>.  Take a model whose output
  projection has one row per token of a non-empty vocabulary and whose position table
  covers the schedule, \<open>top_k\<close> at most the vocabulary size, draws in \<open>[0, 1)\<close>, and a
  class label (or none) for which the condition exists.  A negative temperature is not
  rejected: for any temperature, if the quotient of every logit by the temperature is a
  finite 32-bit float at every prefix shorter than the schedule, generation returns
  \<open>total_seq_len\<close> tokens of the vocabulary.  With temperature 0 and a schedule that asks
  for at least one token the call fails, and it fails in the sampling step, not by a
  check of the argument: with a schedule that asks for no token the call returns the
  empty sequence at every temperature.
\<close>

theorem generate_temperature_unchecked:
  assumes "length (lin_weight (to_logits m)) = length (token_embedding m)"
    and "length (lin_bias (to_logits m)) = length (token_embedding m)"
    and "token_embedding m \<noteq> []"
    and "total_seq_len_of (scales m) \<le> int (length (pos_embedding m))"
    and "top_k \<le> int (length (token_embedding m))"
    and "\<forall>n. 0 \<le> us n \<and> us n < 1"
    and "make_condition m class_labels = Inr condition"
  shows "((\<forall>generated logits.
             int (length generated) < total_seq_len_of (scales m)
             \<longrightarrow> next_logits m condition generated = Inr logits
             \<longrightarrow> (\<forall>x \<in> set logits. \<exists>y. float32_div x temperature = Logit (Fin y)))
          \<longrightarrow> (\<exists>toks. generate m class_labels temperature top_k top_p us = Inr toks
                 \<and> int (length toks) = total_seq_len_of (scales m)
                 \<and> (\<forall>t \<in> set toks. 0 \<le> t \<and> t < int (length (token_embedding m)))))
       \<and> (temperature = 0 \<longrightarrow> (\<exists>s \<in> set (scales m). s \<noteq> 0)
          \<longrightarrow> (\<exists>e. generate m class_labels temperature top_k top_p us = Inl e))
       \<and> ((\<forall>s \<in> set (scales m). s = 0)
          \<longrightarrow> generate m class_labels temperature top_k top_p us = Inr [])"
proof (intro conjI impI)
  assume fin: "\<forall>generated logits.
             int (length generated) < total_seq_len_of (scales m)
             \<longrightarrow> next_logits m condition generated = Inr logits
             \<longrightarrow> (\<forall>x \<in> set logits. \<exists>y. float32_div x temperature = Logit (Fin y))"
  let ?L = "nat (total_seq_len_of (scales m))"
  have nn: "0 \<le> total_seq_len_of (scales m)" by (rule total_seq_len_of_nonneg)
  from fin nn have f: "\<forall>g lg. length g < ?L \<longrightarrow> next_logits m condition g = Inr lg
           \<longrightarrow> (\<forall>x \<in> set lg. \<exists>y. float32_div x temperature = Logit (Fin y))"
    by (simp add: zless_nat_eq_int_zless)
  from assms(4) have L: "?L \<le> length (pos_embedding m)" by simp
  have v: "\<forall>t \<in> set ([]::int list). 0 \<le> t \<and> t < int (length (token_embedding m))" by simp
  have l: "int (length ([]::int list)) + total_seq_len_of (scales m) \<le> int ?L"
    using nn by simp
  from generate_scales_succeeds [OF assms(1,2,3,5,6) f L v l]
  show "\<exists>toks. generate m class_labels temperature top_k top_p us = Inr toks
                 \<and> int (length toks) = total_seq_len_of (scales m)
                 \<and> (\<forall>t \<in> set toks. 0 \<le> t \<and> t < int (length (token_embedding m)))"
    by (simp add: generate_def assms(7))
next
  assume "temperature = 0" and "\<exists>s \<in> set (scales m). s \<noteq> 0"
  then have z: "float32_round temperature = 0" and s: "\<exists>s \<in> set (scales m). s \<noteq> 0"
    by (simp_all add: float32_zero)
  from generate_scales_zero_temperature [OF z s, of m condition top_k top_p us "[]"]
  show "\<exists>e. generate m class_labels temperature top_k top_p us = Inl e"
    by (simp add: generate_def assms(7))
next
  assume "\<forall>s \<in> set (scales m). s = 0"
  from generate_scales_empty [OF this]
  show "generate m class_labels temperature top_k top_p us = Inr []"
    by (simp add: generate_def assms(7))
qed

theorem generate_temperature_unchecked_witness:
  "make_condition zero_layer_model (Some 0) = Inr [1, 1]
   \<and> float32_div 1 (- 1) = Logit (Fin (- 1))
   \<and> (\<exists>toks. generate zero_layer_model (Some 0) (- 1) 2 (19 / 20) (\<lambda>_. 1 / 2) = Inr toks
          \<and> int (length toks) = 5)
   \<and> (\<exists>e. generate zero_layer_model (Some 0) 0 2 (19 / 20) (\<lambda>_. 1 / 2) = Inl e)"
proof -
  let ?m = zero_layer_model
  have c: "make_condition ?m (Some 0) = Inr [1, 1]"
    by (simp add: make_condition_def embedding_def zero_layer_model_def)
  have k: "2 \<le> int (length (token_embedding ?m))"
    by (simp add: zero_layer_shape)
  have tot: "total_seq_len_of (scales ?m) = 5"
    by (simp add: zero_layer_shape total_seq_len_of_def)
  have p: "total_seq_len_of (scales ?m) \<le> int (length (pos_embedding ?m))"
    unfolding tot by (simp add: zero_layer_shape(6))
  have u: "\<forall>n::nat. (0::real) \<le> 1 / 2 \<and> (1::real) / 2 < 1" by simp
  have fin: "\<forall>generated logits.
             int (length generated) < total_seq_len_of (scales ?m)
             \<longrightarrow> next_logits ?m [1, 1] generated = Inr logits
             \<longrightarrow> (\<forall>x \<in> set logits. \<exists>y. float32_div x (- 1) = Logit (Fin y))"
    using zero_layer_finite [of 1 1] by blast
  note th = generate_temperature_unchecked [OF zero_layer_shape(1-3) p k u c]
  from th [of "- 1" "19 / 20"] fin tot
  have a: "\<exists>toks. generate ?m (Some 0) (- 1) 2 (19 / 20) (\<lambda>_. 1 / 2) = Inr toks
          \<and> int (length toks) = 5" by auto
  from th [of 0 "19 / 20"]
  have b: "\<exists>e. generate ?m (Some 0) 0 2 (19 / 20) (\<lambda>_. 1 / 2) = Inl e"
    by (simp add: zero_layer_shape)
  from c a b float32_div_neg_1(2) show ?thesis by blast
qed

section \<open>The two decoding paths of the tokenizer\<close>

lemma map_err_map:
  assumes "map_err f xs = Inr ys"
    and "\<And>x y. x \<in> set xs \<Longrightarrow> f x = Inr y \<Longrightarrow> g (h y) = Inr (k y)"
  shows "map_err g (map h ys) = Inr (map k ys)"
  using assms
proof (induction xs arbitrary: ys)
  case Nil
  then show ?case by simp
next
  case (Cons x xs)
  from Cons.prems(1) obtain y ys' where
    y: "f x = Inr y" "map_err f xs = Inr ys'" "ys = y # ys'"
    by (auto split: sum.splits)
  have "g (h y) = Inr (k y)" using Cons.prems(2) [of x y] y(1) by simp
  moreover have "map_err g (map h ys') = Inr (map k ys')"
  proof (rule Cons.IH [OF y(2)])
    fix x' y'
    assume "x' \<in> set xs" and "f x' = Inr y'"
    then show "g (h y') = Inr (k y')" using Cons.prems(2) [of x' y'] by simp
  qed
  ultimately show ?case using y(3) by simp
qed

lemma argmin_index_bound:
  assumes "argmin ds = Inr i"
  shows "i < length ds"
proof (cases "ds = []")
  case True
  with assms show ?thesis by (simp add: argmin_def)
next
  case False
  from argmin_first_min [OF False] assms show ?thesis by auto
qed

lemma quantize_cell_lookup:
  assumes "quantize_cell rnd p x = Inr y"
    and "\<forall>i. encoding_index rnd (embeddings p) x = Inr i \<longrightarrow>
             straight_through rnd x (embeddings p ! i) = embeddings p ! i"
  shows "embedding (embeddings p) (snd y) = Inr (fst y)"
proof -
  from assms(1) obtain i where
    i: "encoding_index rnd (embeddings p) x = Inr i"
    and y: "y = (straight_through rnd x (embeddings p ! i), int i)"
    by (auto simp add: quantize_cell_def split: if_splits sum.splits)
  from i have "i < length (distances_row rnd (embeddings p) x)"
    unfolding encoding_index_def by (rule argmin_index_bound)
  then have b: "i < length (embeddings p)" by (simp add: distances_row_def)
  from assms(2) i have "straight_through rnd x (embeddings p ! i) = embeddings p ! i" by blast
  with y b show ?thesis by (simp add: embedding_def)
qed

text \<open>
  C4 (amended).  Decoding the quantized output of \<open>encode\<close> decodes the straight-through
  values \<open>x + (quantized - x)\<close>; decoding from the encoding indices decodes the code
  vectors.  Whenever, in the run of \<open>encode\<close>, the rounded straight-through value of
  every feature vector equals its selected code vector, the two results are the same.
  (In exact arithmetic that is always so; in 32-bit floating point it holds for some
  inputs and fails for others.)
\<close>

theorem decode_paths_agree_when_exact:
  assumes "encode rnd m x = Inr (quantized, encodings)"
    and "\<forall>cell \<in> set (concat (concat (permute_0231 (encoder m x)))).
           \<forall>i. encoding_index rnd (embeddings (quantizer m)) cell = Inr i \<longrightarrow>
             straight_through rnd cell (embeddings (quantizer m) ! i) = embeddings (quantizer m) ! i"
  shows "decode_from_indices m encodings = Inr (decode m quantized)"
proof -
  let ?p = "quantizer m"
  let ?z = "permute_0231 (encoder m x)"
  from assms(1) obtain cells where
    c: "map_err (map_err (map_err (quantize_cell rnd ?p))) ?z = Inr cells"
    and q: "quantized = permute_0312 (map (map (map fst)) cells)"
    and e: "encodings = map (map (map snd)) cells"
    by (auto simp add: encode_def VectorQuantizer_forward_def split: sum.splits)
  have l1: "embedding (embeddings ?p) (snd y) = Inr (fst y)"
    if "v \<in> set row" "row \<in> set plane" "plane \<in> set ?z" "quantize_cell rnd ?p v = Inr y"
    for v row plane y
  proof -
    from that(1,2,3) have "v \<in> set (concat (concat ?z))" by auto
    with assms(2) have ex: "\<forall>i. encoding_index rnd (embeddings ?p) v = Inr i \<longrightarrow>
             straight_through rnd v (embeddings ?p ! i) = embeddings ?p ! i" by blast
    from quantize_cell_lookup [OF that(4) ex] show ?thesis .
  qed
  have l2: "map_err (embedding (embeddings ?p)) (map snd ys) = Inr (map fst ys)"
    if "row \<in> set plane" "plane \<in> set ?z" "map_err (quantize_cell rnd ?p) row = Inr ys"
    for row plane ys
    using that(3) l1 [OF _ that(1,2)] by (rule map_err_map)
  have l3: "map_err (map_err (embedding (embeddings ?p))) (map (map snd) ys) = Inr (map (map fst) ys)"
    if "plane \<in> set ?z" "map_err (map_err (quantize_cell rnd ?p)) plane = Inr ys" for plane ys
    using that(2) l2 [OF _ that(1)] by (rule map_err_map)
  have "map_err (map_err (map_err (embedding (embeddings ?p)))) (map (map (map snd)) cells)
      = Inr (map (map (map fst)) cells)"
    using c l3 by (rule map_err_map)
  then show ?thesis by (simp add: decode_from_indices_def decode_def q e)
qed

lemma floor_log2_below_one: "\<lfloor>log 2 (33554431 / 33554432)\<rfloor> = - 1"
proof -
  have "2 powr (- 1) \<le> (33554431 / 33554432 :: real)" by (simp add: powr_minus)
  then have a: "- 1 \<le> log 2 (33554431 / 33554432)" by (simp add: le_log_iff)
  have b: "log 2 (33554431 / 33554432) < 0" by simp
  from a b show ?thesis by (simp add: floor_eq_iff)
qed

lemma float32_sub_example: "float32_round (- (33554431 / 33554432)) = - 1"
proof -
  have e: "max \<lfloor>log 2 (33554431 / 33554432 :: real)\<rfloor> (- 126) = - 1"
    by (simp add: floor_log2_below_one)
  have "(2::real) powr (- 24) = inverse (2 powr 24)" by (rule powr_minus)
  also have "(2::real) powr 24 = 2 ^ 24" by simp
  finally have u: "(2::real) powr (- 24) = 1 / 16777216"
    by (simp add: inverse_eq_divide)
  have f: "\<lfloor>- (33554431 / 2) :: real\<rfloor> = - 16777216"
    by (simp add: floor_eq_iff)
  have r: "round_half_even (- (33554431 / 2)) = - 16777216"
    by (simp add: round_half_even_def f)
  show ?thesis
    unfolding float32_round_def by (simp add: e u r Let_def)
qed

lemma straight_through_example:
  "straight_through float32_round [1] [1 / 33554432] = [0]"
  by (simp add: straight_through_def float32_sub_example float32_zero)

text \<open>
  C4 (as stated, refuted).  In 32-bit floating point the feature \<open>1\<close> and the code
  vector \<open>2\<^sup>-\<^sup>2\<^sup>5\<close> give \<open>quantized - x = -1\<close> after rounding (the exact
  difference lies halfway between two floats and the tie goes to \<open>-1\<close>), so the
  straight-through value \<open>x + (quantized - x)\<close> is \<open>0\<close>, not the code vector.  On
  the small tokenizer \<open>encode\<close> returns the quantized tensor \<open>0\<close> with the index
  \<open>0\<close>; decoding the quantized tensor gives \<open>0\<close>, decoding from the index gives
  \<open>2\<^sup>-\<^sup>2\<^sup>5\<close>.
\<close>

theorem straight_through_loses_code:
  "encode float32_round example_vqvae [[[[0]]]] = Inr ([[[[0]]]], [[[0]]])
   \<and> decode example_vqvae [[[[0]]]] = [[[[0]]]]
   \<and> decode_from_indices example_vqvae [[[0]]] = Inr [[[[1 / 33554432]]]]
   \<and> decode_from_indices example_vqvae [[[0]]] \<noteq> Inr (decode example_vqvae [[[[0]]]])"
proof -
  have idx: "encoding_index float32_round [[1 / 33554432]] [1] = Inr 0"
    by (simp add: encoding_index_def distances_row_def argmin_def)
  have cell: "quantize_cell float32_round (quantizer example_vqvae) [1] = Inr ([0], 0)"
    by (simp add: quantize_cell_def example_vqvae_def idx straight_through_example)
  have enc: "encode float32_round example_vqvae [[[[0]]]] = Inr ([[[[0]]]], [[[0]]])"
    using cell
    by (simp add: encode_def VectorQuantizer_forward_def permute_0231_def permute_0312_def
        example_vqvae_def)
  have dec: "decode example_vqvae [[[[0]]]] = [[[[0]]]]"
    by (simp add: decode_def example_vqvae_def)
  have dfi: "decode_from_indices example_vqvae [[[0]]] = Inr [[[[1 / 33554432]]]]"
    by (simp add: decode_from_indices_def example_vqvae_def embedding_def permute_0312_def)
  from enc dec dfi show ?thesis by simp
qed

text \<open>
  The same tokenizer with the code vector \<open>1/2\<close>: in 32-bit floating point
  \<open>1/2 - 1\<close> and \<open>1 + (-1/2)\<close> are exact, and the two paths agree.
\<close>

theorem decode_paths_agree_when_exact_witness:
  "encode float32_round
       (example_vqvae\<lparr>quantizer := \<lparr>embedding_dim = 1, embeddings = [[1 / 2]]\<rparr>\<rparr>) [[[[0]]]]
     = Inr ([[[[1 / 2]]]], [[[0]]])
   \<and> decode_from_indices
       (example_vqvae\<lparr>quantizer := \<lparr>embedding_dim = 1, embeddings = [[1 / 2]]\<rparr>\<rparr>) [[[0]]]
     = Inr (decode
       (example_vqvae\<lparr>quantizer := \<lparr>embedding_dim = 1, embeddings = [[1 / 2]]\<rparr>\<rparr>)
       [[[[1 / 2]]]])
   \<and> decode
       (example_vqvae\<lparr>quantizer := \<lparr>embedding_dim = 1, embeddings = [[1 / 2]]\<rparr>\<rparr>)
       [[[[1 / 2]]]] = [[[[1 / 2]]]]"
proof -
  let ?m = "example_vqvae\<lparr>quantizer := \<lparr>embedding_dim = 1, embeddings = [[1 / 2]]\<rparr>\<rparr>"
  have st: "straight_through float32_round [1] [1 / 2] = [1 / 2]"
    by (simp add: straight_through_def f32_half f32_neg_half)
  have idx: "encoding_index float32_round [[1 / 2]] [1] = Inr 0"
    by (simp add: encoding_index_def distances_row_def argmin_def)
  have cell: "quantize_cell float32_round (quantizer ?m) [1] = Inr ([1 / 2], 0)"
    by (simp add: quantize_cell_def idx st)
  have z: "permute_0231 (encoder ?m [[[[0]]]]) = [[[[1]]]]"
    by (simp add: permute_0231_def example_vqvae_def)
  have z': "permute_0231 (encoder example_vqvae [[[[0]]]]) = [[[[1]]]]"
    by (simp add: permute_0231_def example_vqvae_def)
  have enc: "encode float32_round ?m [[[[0]]]] = Inr ([[[[1 / 2]]]], [[[0]]])"
    using cell
    by (simp add: encode_def VectorQuantizer_forward_def z' permute_0312_def)
  have ex: "\<forall>cell \<in> set (concat (concat (permute_0231 (encoder ?m [[[[0]]]])))).
           \<forall>i. encoding_index float32_round (embeddings (quantizer ?m)) cell = Inr i \<longrightarrow>
             straight_through float32_round cell (embeddings (quantizer ?m) ! i)
               = embeddings (quantizer ?m) ! i"
    by (simp add: z' idx st)
  have d: "decode ?m [[[[1 / 2]]]] = [[[[1 / 2]]]]"
    by (simp add: decode_def example_vqvae_def)
  from decode_paths_agree_when_exact [OF enc ex] enc d show ?thesis by simp
qed

end
